theory Spec2Isabelle
  imports Complex_Main "HOL-Library.Char_ord" "HOL-Library.AList"
begin

section \<open>Substitution matrices: Bio/SubsMat/__init__.py\<close>

text \<open>
  The module builds log-odds substitution matrices from counted replacements.
  A matrix (class \<open>SeqMat\<close>) is a dictionary from 2-tuples of letters to numbers,
  with an alphabet and a type tag.

  Conventions of the embedding:
  \<^item> a Python dictionary is an association list with pairwise distinct keys; iterating
    over \<open>keys()\<close> visits the entries in list order, \<open>d[k] = v\<close> is \<open>AList.update\<close>
    (an existing key keeps its place, a new one is appended), \<open>del d[k]\<close> is
    \<open>AList.delete\<close>, and reading a missing key is \<open>KeyError\<close>;
  \<^item> letters are single characters, ordered by code point as Python orders them;
  \<^item> numbers are real numbers: the floating-point arithmetic of the source is idealised,
    so rounding error of \<open>+\<close>, \<open>/\<close> and \<open>log\<close> is not part of the model;
  \<^item> every \<open>raise\<close>, failed \<open>assert\<close> and failing builtin is a value \<open>Inl e\<close>.
\<close>

subsection \<open>Errors, dictionaries, builtins\<close>

datatype error = AssertionError | KeyError | TypeError | ValueError | ZeroDivisionError

type_synonym key = "char \<times> char"
type_synonym dict = "(key \<times> real) list"

definition getitem :: "('k \<times> real) list \<Rightarrow> 'k \<Rightarrow> error + real" where
  "getitem d k = (case map_of d k of None \<Rightarrow> Inl KeyError | Some v \<Rightarrow> Inr v)"

definition setitem :: "('k \<times> real) list \<Rightarrow> 'k \<Rightarrow> real \<Rightarrow> ('k \<times> real) list" where
  "setitem d k v = AList.update k v d"

definition delitem :: "('k \<times> real) list \<Rightarrow> 'k \<Rightarrow> error + ('k \<times> real) list" where
  "delitem d k = (if map_of d k = None then Inl KeyError else Inr (AList.delete k d))"

text \<open>\<open>xs.index(x)\<close>: the first position of \<open>x\<close>. The source only asks for the position of
  an element it has just taken from the same list, so the \<open>ValueError\<close> of a missing element
  cannot arise and the model returns the length there.\<close>

fun list_index :: "'a list \<Rightarrow> 'a \<Rightarrow> nat" where
  "list_index [] x = 0"
| "list_index (y # ys) x = (if x = y then 0 else Suc (list_index ys x))"

text \<open>The slice \<open>ab_list[:ab_list.index(i)+1]\<close>.\<close>

definition upto_letter :: "string \<Rightarrow> char \<Rightarrow> string" where
  "upto_letter ab i = take (list_index ab i + 1) ab"

text \<open>\<open>math.log\<close> raises \<open>ValueError\<close> outside its domain.\<close>

definition py_log :: "real \<Rightarrow> error + real" where
  "py_log x = (if x \<le> 0 then Inl ValueError else Inr (ln x))"

definition py_div :: "real \<Rightarrow> real \<Rightarrow> error + real" where
  "py_div x y = (if y = 0 then Inl ZeroDivisionError else Inr (x / y))"

text \<open>The builtin \<open>round(x, n)\<close> of Python 2: to \<open>n\<close> decimal digits, halves away from zero.\<close>

definition py_round :: "real \<Rightarrow> int \<Rightarrow> real" where
  "py_round x n =
     (let p = (if 0 \<le> n then 10 ^ nat n else 1 / 10 ^ nat (- n))
      in sgn x * of_int \<lfloor>\<bar>x\<bar> * p + 1 / 2\<rfloor> / p)"

subsection \<open>Matrix types\<close>

definition NOTYPE :: int where "NOTYPE = 0"
definition ACCREP :: int where "ACCREP = 1"
definition OBSFREQ :: int where "OBSFREQ = 2"
definition SUBS :: int where "SUBS = 3"
definition EXPFREQ :: int where "EXPFREQ = 4"
definition LO :: int where "LO = 5"

subsection \<open>The class SeqMat\<close>

text \<open>The fields of an instance. \<open>letters\<close> is \<open>self.alphabet.letters\<close>.\<close>

record seqmat =
  data :: dict
  letters :: string
  ab_list :: string
  mat_type :: int
  mat_name :: string
  sum_letters :: "(char \<times> real) list"

text \<open>\<open>_alphabet_from_matrix\<close>: the letters occurring in the keys, each once, sorted.\<close>

definition alphabet_from_matrix :: "dict \<Rightarrow> string" where
  "alphabet_from_matrix d = sort (remdups (concat (map (\<lambda>((a, b), v). [a, b]) d)))"

text \<open>\<open>_init_zero\<close>: the inner loop over \<open>j\<close>, then the outer loop over \<open>i\<close>.\<close>

fun init_zero_row :: "char \<Rightarrow> string \<Rightarrow> dict \<Rightarrow> dict" where
  "init_zero_row i [] d = d"
| "init_zero_row i (j # js) d = init_zero_row i js (setitem d (j, i) 0)"

fun init_zero_rows :: "string \<Rightarrow> string \<Rightarrow> dict \<Rightarrow> dict" where
  "init_zero_rows ab [] d = d"
| "init_zero_rows ab (i # is) d = init_zero_rows ab is (init_zero_row i (upto_letter ab i) d)"

definition init_zero :: "seqmat \<Rightarrow> seqmat" where
  "init_zero m = m\<lparr>data := init_zero_rows (ab_list m) (ab_list m) (data m)\<rparr>"

text \<open>\<open>_full_to_half\<close>: for \<open>i \<noteq> j\<close> the statement \<open>self[j,i] = self[j,i] + self[i,j]\<close>
  reads both entries (each may be missing), stores the sum, then deletes \<open>self[i,j]\<close>.\<close>

fun fold_row :: "char \<Rightarrow> string \<Rightarrow> dict \<Rightarrow> error + dict" where
  "fold_row i [] d = Inr d"
| "fold_row i (j # js) d =
     (if i \<noteq> j then
        (case getitem d (j, i) of Inl e \<Rightarrow> Inl e | Inr x \<Rightarrow>
         (case getitem d (i, j) of Inl e \<Rightarrow> Inl e | Inr y \<Rightarrow>
          (case delitem (setitem d (j, i) (x + y)) (i, j) of Inl e \<Rightarrow> Inl e | Inr d' \<Rightarrow>
             fold_row i js d')))
      else fold_row i js d)"

fun fold_rows :: "string \<Rightarrow> string \<Rightarrow> dict \<Rightarrow> error + dict" where
  "fold_rows ab [] d = Inr d"
| "fold_rows ab (i # is) d =
     (case fold_row i (upto_letter ab i) d of Inl e \<Rightarrow> Inl e | Inr d' \<Rightarrow> fold_rows ab is d')"

definition full_to_half :: "seqmat \<Rightarrow> error + seqmat" where
  "full_to_half m =
     (let N = length (letters m)
      in if length (data m) = N * (N + 1) div 2 then Inr m
         else (case fold_rows (ab_list m) (ab_list m) (data m) of
                 Inl e \<Rightarrow> Inl e
               | Inr d \<Rightarrow> Inr (m\<lparr>data := d\<rparr>)))"

text \<open>The constructor. \<open>dat\<close> is the dictionary that is copied: the empty one for
  \<open>data=None\<close>, the argument itself for a dictionary, and its \<open>data\<close> field for a \<open>SeqMat\<close>.
  \<open>alphabet\<close> is \<open>None\<close> when no alphabet is passed (a fresh one, without letters, is made)
  and the letters of the passed alphabet otherwise.\<close>

definition SeqMat :: "dict \<Rightarrow> string option \<Rightarrow> int \<Rightarrow> string \<Rightarrow> bool \<Rightarrow> error + seqmat" where
  "SeqMat dat alphabet mtype mname build_later =
     (let passed = (case alphabet of None \<Rightarrow> [] | Some s \<Rightarrow> s);
          ls = (if passed = [] then alphabet_from_matrix dat else passed);
          N = length ls
      in if \<not> build_later \<and> \<not> (length dat = N ^ 2 \<or> length dat = N * (N + 1) div 2)
         then Inl AssertionError
         else
           (let m = \<lparr>data = dat, letters = ls, ab_list = sort ls, mat_type = mtype,
                     mat_name = mname, sum_letters = []\<rparr>
            in if build_later then Inr (init_zero m) else full_to_half m))"

text \<open>\<open>entropy\<close>: the two loops, with the running total \<open>ent\<close>.\<close>

fun entropy_lo :: "dict \<Rightarrow> dict \<Rightarrow> key list \<Rightarrow> real \<Rightarrow> error + real" where
  "entropy_lo self obs [] ent = Inr ent"
| "entropy_lo self obs (i # ks) ent =
     (case getitem obs i of Inl e \<Rightarrow> Inl e | Inr f \<Rightarrow>
      (case getitem self i of Inl e \<Rightarrow> Inl e | Inr s \<Rightarrow>
         entropy_lo self obs ks (ent + f * s / ln 2)))"

fun entropy_subs :: "dict \<Rightarrow> dict \<Rightarrow> key list \<Rightarrow> real \<Rightarrow> error + real" where
  "entropy_subs self obs [] ent = Inr ent"
| "entropy_subs self obs (i # ks) ent =
     (case getitem obs i of Inl e \<Rightarrow> Inl e | Inr f \<Rightarrow>
      (case getitem self i of Inl e \<Rightarrow> Inl e | Inr s \<Rightarrow>
       (case py_log s of Inl e \<Rightarrow> Inl e | Inr l \<Rightarrow>
         entropy_subs self obs ks (ent + f * l / ln 2))))"

definition entropy :: "seqmat \<Rightarrow> seqmat \<Rightarrow> error + real" where
  "entropy self obs_freq_mat =
     (if mat_type self = LO then
        entropy_lo (data self) (data obs_freq_mat) (map fst (data self)) 0
      else if mat_type self = SUBS then
        entropy_subs (data self) (data obs_freq_mat) (map fst (data self)) 0
      else Inl TypeError)"

text \<open>The lookup of \<open>print_mat\<close>: \<open>self[j,i]\<close>, and \<open>self[i,j]\<close> when that key is missing.\<close>

definition print_lookup :: "seqmat \<Rightarrow> char \<Rightarrow> char \<Rightarrow> error + real" where
  "print_lookup self i j =
     (case getitem (data self) (j, i) of
        Inl e \<Rightarrow> getitem (data self) (i, j)
      | Inr v \<Rightarrow> Inr v)"

subsection \<open>The pipeline\<close>

text \<open>\<open>_build_obs_freq_mat\<close>: the total, then one division per key.\<close>

fun obs_freq_loop :: "dict \<Rightarrow> real \<Rightarrow> key list \<Rightarrow> dict \<Rightarrow> error + dict" where
  "obs_freq_loop arm tot [] d = Inr d"
| "obs_freq_loop arm tot (i # ks) d =
     (case getitem arm i of Inl e \<Rightarrow> Inl e | Inr a \<Rightarrow>
      (case py_div a tot of Inl e \<Rightarrow> Inl e | Inr q \<Rightarrow>
         obs_freq_loop arm tot ks (setitem d i q)))"

definition build_obs_freq_mat :: "seqmat \<Rightarrow> error + seqmat" where
  "build_obs_freq_mat acc_rep_mat =
     (let tot = fold (\<lambda>v s. s + v) (map snd (data acc_rep_mat)) 0
      in case SeqMat [] (Some (letters acc_rep_mat)) NOTYPE [] True of
           Inl e \<Rightarrow> Inl e
         | Inr obs_freq_mat \<Rightarrow>
            (case obs_freq_loop (data acc_rep_mat) tot (map fst (data acc_rep_mat))
                    (data obs_freq_mat) of
               Inl e \<Rightarrow> Inl e
             | Inr d \<Rightarrow> Inr (obs_freq_mat\<lparr>data := d, mat_type := OBSFREQ\<rparr>)))"

text \<open>Modelled from the spec: the class \<open>FreqTable\<close> of \<open>Bio.SubsMat.FreqTable\<close> is not
  part of the source at hand. The spec describes a frequency table as a mapping from a
  single alphabet symbol to its frequency, with an associated alphabet that is derived from
  the table; as a mapping it is false in a condition exactly when it has no entry.\<close>

record freq_table =
  ft_data :: "(char \<times> real) list"
  ft_letters :: string

definition FreqTable_FREQ :: "(char \<times> real) list \<Rightarrow> freq_table" where
  "FreqTable_FREQ in_dict = \<lparr>ft_data = in_dict, ft_letters = map fst in_dict\<rparr>"

definition ft_truth :: "freq_table \<Rightarrow> bool" where
  "ft_truth t = (ft_data t \<noteq> [])"

text \<open>\<open>_exp_freq_table_from_obs_freq\<close>. \<open>t[a] += x\<close> reads \<open>t[a]\<close> first.\<close>

definition add_to :: "(char \<times> real) list \<Rightarrow> char \<Rightarrow> real \<Rightarrow> error + (char \<times> real) list" where
  "add_to t a x = (case getitem t a of Inl e \<Rightarrow> Inl e | Inr v \<Rightarrow> Inr (setitem t a (v + x)))"

fun exp_table_loop :: "dict \<Rightarrow> key list \<Rightarrow> (char \<times> real) list \<Rightarrow> error + (char \<times> real) list" where
  "exp_table_loop obs [] t = Inr t"
| "exp_table_loop obs (i # ks) t =
     (if fst i = snd i then
        (case getitem t (fst i) of Inl e \<Rightarrow> Inl e | Inr v \<Rightarrow>
         (case getitem obs i of Inl e \<Rightarrow> Inl e | Inr x \<Rightarrow>
            exp_table_loop obs ks (setitem t (fst i) (v + x))))
      else
        (case getitem t (fst i) of Inl e \<Rightarrow> Inl e | Inr v \<Rightarrow>
         (case getitem obs i of Inl e \<Rightarrow> Inl e | Inr x \<Rightarrow>
          (case getitem (setitem t (fst i) (v + x / 2)) (snd i) of Inl e \<Rightarrow> Inl e | Inr w \<Rightarrow>
           (case getitem obs i of Inl e \<Rightarrow> Inl e | Inr y \<Rightarrow>
              exp_table_loop obs ks
                (setitem (setitem t (fst i) (v + x / 2)) (snd i) (w + y / 2)))))))"

definition exp_freq_table_from_obs_freq :: "seqmat \<Rightarrow> error + freq_table" where
  "exp_freq_table_from_obs_freq obs_freq_mat =
     (let t0 = fold (\<lambda>i t. setitem t i 0) (letters obs_freq_mat) []
      in case exp_table_loop (data obs_freq_mat) (map fst (data obs_freq_mat)) t0 of
           Inl e \<Rightarrow> Inl e
         | Inr t \<Rightarrow> Inr (FreqTable_FREQ t))"

text \<open>\<open>_build_exp_freq_mat\<close>. The loop runs over the keys the matrix has after
  zero-initialisation.\<close>

fun exp_freq_loop :: "(char \<times> real) list \<Rightarrow> key list \<Rightarrow> dict \<Rightarrow> error + dict" where
  "exp_freq_loop t [] d = Inr d"
| "exp_freq_loop t (i # ks) d =
     (if fst i = snd i then
        (case getitem t (fst i) of Inl e \<Rightarrow> Inl e | Inr p \<Rightarrow>
           exp_freq_loop t ks (setitem d i (p ^ 2)))
      else
        (case getitem t (fst i) of Inl e \<Rightarrow> Inl e | Inr p \<Rightarrow>
         (case getitem t (snd i) of Inl e \<Rightarrow> Inl e | Inr q \<Rightarrow>
            exp_freq_loop t ks (setitem d i (2 * p * q)))))"

definition build_exp_freq_mat :: "freq_table \<Rightarrow> error + seqmat" where
  "build_exp_freq_mat exp_freq_table =
     (case SeqMat [] (Some (ft_letters exp_freq_table)) NOTYPE [] True of
        Inl e \<Rightarrow> Inl e
      | Inr exp_freq_mat \<Rightarrow>
         (case exp_freq_loop (ft_data exp_freq_table) (map fst (data exp_freq_mat))
                 (data exp_freq_mat) of
            Inl e \<Rightarrow> Inl e
          | Inr d \<Rightarrow> Inr (exp_freq_mat\<lparr>data := d, mat_type := EXPFREQ\<rparr>)))"

text \<open>\<open>_build_subs_mat\<close>.\<close>

fun subs_loop :: "dict \<Rightarrow> dict \<Rightarrow> key list \<Rightarrow> dict \<Rightarrow> error + dict" where
  "subs_loop obs ex [] d = Inr d"
| "subs_loop obs ex (i # ks) d =
     (case getitem obs i of Inl e \<Rightarrow> Inl e | Inr x \<Rightarrow>
      (case getitem ex i of Inl e \<Rightarrow> Inl e | Inr y \<Rightarrow>
       (case py_div x y of Inl e \<Rightarrow> Inl e | Inr q \<Rightarrow>
          subs_loop obs ex ks (setitem d i q))))"

definition build_subs_mat :: "seqmat \<Rightarrow> seqmat \<Rightarrow> error + seqmat" where
  "build_subs_mat obs_freq_mat exp_freq_mat =
     (if ab_list obs_freq_mat \<noteq> ab_list exp_freq_mat then Inl ValueError
      else
        (case SeqMat (data obs_freq_mat) None NOTYPE [] False of
           Inl e \<Rightarrow> Inl e
         | Inr subs_mat \<Rightarrow>
            (case subs_loop (data obs_freq_mat) (data exp_freq_mat)
                    (map fst (data obs_freq_mat)) (data subs_mat) of
               Inl e \<Rightarrow> Inl e
             | Inr d \<Rightarrow> Inr (subs_mat\<lparr>data := d, mat_type := SUBS\<rparr>))))"

text \<open>\<open>_build_log_odds_mat\<close>. In \<open>factor*log(x)/log(logbase)\<close> the product is formed first,
  then \<open>log(logbase)\<close>, then the quotient.\<close>

fun log_odds_loop :: "dict \<Rightarrow> real \<Rightarrow> real \<Rightarrow> int \<Rightarrow> key list \<Rightarrow> dict \<Rightarrow> error + dict" where
  "log_odds_loop subs logbase factor round_digit [] d = Inr d"
| "log_odds_loop subs logbase factor round_digit (i # ks) d =
     (case getitem subs i of Inl e \<Rightarrow> Inl e | Inr x \<Rightarrow>
      (case py_log x of Inl e \<Rightarrow> Inl e | Inr l \<Rightarrow>
       (case py_log logbase of Inl e \<Rightarrow> Inl e | Inr b \<Rightarrow>
        (case py_div (factor * l) b of Inl e \<Rightarrow> Inl e | Inr q \<Rightarrow>
           log_odds_loop subs logbase factor round_digit ks
             (setitem d i (py_round q round_digit))))))"

definition build_log_odds_mat :: "seqmat \<Rightarrow> real \<Rightarrow> real \<Rightarrow> int \<Rightarrow> error + seqmat" where
  "build_log_odds_mat subs_mat logbase factor round_digit =
     (case SeqMat (data subs_mat) None NOTYPE [] False of
        Inl e \<Rightarrow> Inl e
      | Inr lo_mat \<Rightarrow>
         (case log_odds_loop (data subs_mat) logbase factor round_digit
                 (map fst (data subs_mat)) (data lo_mat) of
            Inl e \<Rightarrow> Inl e
          | Inr d \<Rightarrow> Inr (lo_mat\<lparr>data := d, mat_type := LO\<rparr>)))"

text \<open>\<open>make_log_odds_matrix\<close>. The argument \<open>exp_freq_table\<close> is \<open>None\<close> when omitted;
  \<open>not exp_freq_table\<close> holds for \<open>None\<close> and for a table that is false as a condition.\<close>

definition make_log_odds_matrix ::
  "seqmat \<Rightarrow> freq_table option \<Rightarrow> real \<Rightarrow> real \<Rightarrow> int \<Rightarrow> error + seqmat" where
  "make_log_odds_matrix acc_rep_mat exp_freq_table logbase factor round_digit =
     (case build_obs_freq_mat acc_rep_mat of Inl e \<Rightarrow> Inl e | Inr obs_freq_mat \<Rightarrow>
      (case (case exp_freq_table of
               None \<Rightarrow> exp_freq_table_from_obs_freq obs_freq_mat
             | Some t \<Rightarrow> if \<not> ft_truth t then exp_freq_table_from_obs_freq obs_freq_mat
                         else Inr t) of
         Inl e \<Rightarrow> Inl e
       | Inr table \<Rightarrow>
          (case build_exp_freq_mat table of Inl e \<Rightarrow> Inl e | Inr exp_freq_mat \<Rightarrow>
           (case build_subs_mat obs_freq_mat exp_freq_mat of Inl e \<Rightarrow> Inl e | Inr subs_mat \<Rightarrow>
              build_log_odds_mat subs_mat logbase factor round_digit))))"

text \<open>The defaults of the keyword arguments: \<open>logbase=10, factor=10.0, round_digit=0\<close>.\<close>

definition build_log_odds_mat_default :: "seqmat \<Rightarrow> error + seqmat" where
  "build_log_odds_mat_default subs_mat = build_log_odds_mat subs_mat 10 10 0"

definition make_log_odds_matrix_default :: "seqmat \<Rightarrow> error + seqmat" where
  "make_log_odds_matrix_default acc_rep_mat = make_log_odds_matrix acc_rep_mat None 10 10 0"

subsection \<open>Well-formed matrices and a worked example\<close>

text \<open>The value stored under a key, for stating results (\<open>0\<close> for a missing key).\<close>

definition value_at :: "('k \<times> real) list \<Rightarrow> 'k \<Rightarrow> real" where
  "value_at d k = (case map_of d k of None \<Rightarrow> 0 | Some v \<Rightarrow> v)"

text \<open>A half matrix, as the class documents it: the letters of the alphabet are pairwise
  different, the keys are the pairs \<open>(low, high)\<close> over the alphabet, each once.\<close>

definition half_matrix :: "seqmat \<Rightarrow> bool" where
  "half_matrix m \<longleftrightarrow>
     distinct (letters m) \<and> ab_list m = sort (letters m) \<and> distinct (map fst (data m)) \<and>
     (\<forall>k\<in>set (map fst (data m)).
        fst k \<in> set (letters m) \<and> snd k \<in> set (letters m) \<and> fst k \<le> snd k) \<and>
     (\<forall>x\<in>set (letters m). \<forall>y\<in>set (letters m). x \<le> y \<longrightarrow> (x, y) \<in> set (map fst (data m)))"

text \<open>A full matrix: one entry for every ordered pair of letters.\<close>

definition full_matrix :: "seqmat \<Rightarrow> bool" where
  "full_matrix m \<longleftrightarrow>
     distinct (letters m) \<and> ab_list m = sort (letters m) \<and> distinct (map fst (data m)) \<and>
     set (map fst (data m)) = set (List.product (letters m) (letters m))"

text \<open>What folding is to compute from the entries \<open>f\<close> of a full matrix, for the letters
  \<open>P\<close> handled so far: the pair \<open>(low, high)\<close> holds the sum of both orders, the pair
  \<open>(high, low)\<close> is gone, everything else is as it was.\<close>

definition fold_spec :: "char set \<Rightarrow> (key \<rightharpoonup> real) \<Rightarrow> (key \<rightharpoonup> real)" where
  "fold_spec P f = (\<lambda>(x, y).
     if x \<in> P \<and> y \<in> P \<and> x < y then Some (the (f (x, y)) + the (f (y, x)))
     else if x \<in> P \<and> y \<in> P \<and> y < x then None
     else f (x, y))"

text \<open>The accepted replacement matrix \<open>{(A,A): 10, (C,C): 10, (A,C): 20}\<close>.\<close>

definition example_dict :: dict where
  "example_dict =
     [((CHR ''A'', CHR ''A''), 10), ((CHR ''C'', CHR ''C''), 10), ((CHR ''A'', CHR ''C''), 20)]"

definition example_arm :: seqmat where
  "example_arm = \<lparr>data = example_dict, letters = ''AC'', ab_list = ''AC'', mat_type = ACCREP,
     mat_name = [], sum_letters = []\<rparr>"

definition example_freq :: dict where
  "example_freq =
     [((CHR ''A'', CHR ''A''), 1 / 4), ((CHR ''A'', CHR ''C''), 1 / 2), ((CHR ''C'', CHR ''C''), 1 / 4)]"

definition example_obs :: seqmat where
  "example_obs = \<lparr>data = example_freq, letters = ''AC'', ab_list = ''AC'', mat_type = OBSFREQ,
     mat_name = [], sum_letters = []\<rparr>"

definition example_exp :: seqmat where
  "example_exp = \<lparr>data = example_freq, letters = ''AC'', ab_list = ''AC'', mat_type = EXPFREQ,
     mat_name = [], sum_letters = []\<rparr>"

definition example_table :: freq_table where
  "example_table = \<lparr>ft_data = [(CHR ''A'', 1 / 2), (CHR ''C'', 1 / 2)], ft_letters = ''AC''\<rparr>"

definition example_subs :: seqmat where
  "example_subs =
     \<lparr>data = [((CHR ''A'', CHR ''A''), 1), ((CHR ''A'', CHR ''C''), 1), ((CHR ''C'', CHR ''C''), 1)],
      letters = ''AC'', ab_list = ''AC'', mat_type = SUBS, mat_name = [], sum_letters = []\<rparr>"

definition example_lo :: seqmat where
  "example_lo =
     \<lparr>data = [((CHR ''A'', CHR ''A''), 0), ((CHR ''A'', CHR ''C''), 0), ((CHR ''C'', CHR ''C''), 0)],
      letters = ''AC'', ab_list = ''AC'', mat_type = LO, mat_name = [], sum_letters = []\<rparr>"

text \<open>A full matrix, with the entries \<open>(A,C): 13\<close> and \<open>(C,A): 20\<close> of the comment in
  \<open>_full_to_half\<close>.\<close>

definition example_full :: seqmat where
  "example_full =
     \<lparr>data = [((CHR ''A'', CHR ''A''), 1), ((CHR ''A'', CHR ''C''), 13),
              ((CHR ''C'', CHR ''A''), 20), ((CHR ''C'', CHR ''C''), 4)],
      letters = ''AC'', ab_list = ''AC'', mat_type = ACCREP, mat_name = [], sum_letters = []\<rparr>"

text \<open>The matrix without entries, as \<open>SeqMat()\<close> builds it.\<close>

definition empty_arm :: seqmat where
  "empty_arm = \<lparr>data = [], letters = [], ab_list = [], mat_type = ACCREP, mat_name = [],
     sum_letters = []\<rparr>"

text \<open>A matrix over \<open>AC\<close> whose counts are all zero.\<close>

definition zero_arm :: seqmat where
  "zero_arm =
     \<lparr>data = [((CHR ''A'', CHR ''A''), 0), ((CHR ''A'', CHR ''C''), 0), ((CHR ''C'', CHR ''C''), 0)],
      letters = ''AC'', ab_list = ''AC'', mat_type = ACCREP, mat_name = [], sum_letters = []\<rparr>"

text \<open>A zero-initialised matrix over the alphabet \<open>ACG\<close>.\<close>

definition example_acg :: seqmat where
  "example_acg =
     \<lparr>data = [((CHR ''A'', CHR ''A''), 0), ((CHR ''A'', CHR ''C''), 0), ((CHR ''C'', CHR ''C''), 0),
              ((CHR ''A'', CHR ''G''), 0), ((CHR ''C'', CHR ''G''), 0), ((CHR ''G'', CHR ''G''), 0)],
      letters = ''ACG'', ab_list = ''ACG'', mat_type = NOTYPE, mat_name = [], sum_letters = []\<rparr>"

text \<open>A dictionary of half size whose key \<open>(C, A)\<close> is not in the order \<open>(low, high)\<close>, and
  the matrix the constructor makes of it.\<close>

definition unsorted_dict :: dict where
  "unsorted_dict =
     [((CHR ''C'', CHR ''A''), 1), ((CHR ''A'', CHR ''A''), 2), ((CHR ''C'', CHR ''C''), 3)]"

definition unsorted_mat :: seqmat where
  "unsorted_mat = \<lparr>data = unsorted_dict, letters = ''AC'', ab_list = ''AC'', mat_type = NOTYPE,
     mat_name = [], sum_letters = []\<rparr>"

text \<open>A frequency table over the alphabet \<open>ACG\<close>, and one without entries that carries the
  same alphabet.\<close>

definition acg_table :: freq_table where
  "acg_table = \<lparr>ft_data = [(CHR ''A'', 1 / 3), (CHR ''C'', 1 / 3), (CHR ''G'', 1 / 3)],
     ft_letters = ''ACG''\<rparr>"

definition empty_acg_table :: freq_table where
  "empty_acg_table = \<lparr>ft_data = [], ft_letters = ''ACG''\<rparr>"

section \<open>Dictionaries\<close>

lemma getitem_Some: "map_of d k = Some v \<Longrightarrow> getitem d k = Inr v"
  by (simp add: getitem_def)

lemma getitem_None: "map_of d k = None \<Longrightarrow> getitem d k = Inl KeyError"
  by (simp add: getitem_def)

lemma map_of_setitem: "map_of (setitem d k v) = (map_of d)(k \<mapsto> v)"
  by (simp add: setitem_def update_conv')

lemma distinct_setitem: "distinct (map fst d) \<Longrightarrow> distinct (map fst (setitem d k v))"
  by (simp add: setitem_def distinct_update)

lemma delitem_Some: "map_of d k = Some v \<Longrightarrow> delitem d k = Inr (AList.delete k d)"
  by (simp add: delitem_def)

lemma keys_eq_dom: "set (map fst d) = dom (map_of d)"
  by (simp add: dom_map_of_conv_image_fst)

lemma length_eq_card_dom: "distinct (map fst d) \<Longrightarrow> length d = card (dom (map_of d))"
  using distinct_card[of "map fst d"] by (simp add: dom_map_of_conv_image_fst)

lemma init_zero_row_map:
  "map_of (init_zero_row i js d) = (\<lambda>k. if k \<in> (\<lambda>j. (j, i)) ` set js then Some 0 else map_of d k)"
  by (induction js arbitrary: d) (auto simp: map_of_setitem fun_eq_iff)

lemma init_zero_row_distinct:
  "distinct (map fst d) \<Longrightarrow> distinct (map fst (init_zero_row i js d))"
  by (induction js arbitrary: d) (auto simp: distinct_setitem)

lemma init_zero_rows_map:
  "map_of (init_zero_rows ab is d) =
     (\<lambda>k. if \<exists>i\<in>set is. k \<in> (\<lambda>j. (j, i)) ` set (upto_letter ab i) then Some 0 else map_of d k)"
  by (induction "is" arbitrary: d) (auto simp: init_zero_row_map fun_eq_iff)

lemma init_zero_rows_distinct:
  "distinct (map fst d) \<Longrightarrow> distinct (map fst (init_zero_rows ab is d))"
  by (induction "is" arbitrary: d) (auto simp: init_zero_row_distinct)

lemma list_index_append: "i \<notin> set pre \<Longrightarrow> list_index (pre @ i # post) i = length pre"
  by (induction pre) auto

lemma upto_letter_append: "i \<notin> set pre \<Longrightarrow> upto_letter (pre @ i # post) i = pre @ [i]"
  by (simp add: upto_letter_def list_index_append)

lemma upto_letter_sorted:
  "sorted ab \<Longrightarrow> distinct ab \<Longrightarrow> i \<in> set ab \<Longrightarrow> set (upto_letter ab i) = {j \<in> set ab. j \<le> i}"
proof -
  assume s: "sorted ab" and d: "distinct ab" and i: "i \<in> set ab"
  from i obtain pre post where ab: "ab = pre @ i # post"
    by (auto simp: in_set_conv_decomp)
  with d have ni: "i \<notin> set pre" "i \<notin> set post" by auto
  from s ab have lt: "\<forall>x\<in>set pre. x \<le> i" "\<forall>y\<in>set post. i \<le> y"
    by (auto simp: sorted_append)
  have "set (upto_letter ab i) = insert i (set pre)"
    using ni by (simp add: ab upto_letter_append)
  also have "\<dots> = {j \<in> set ab. j \<le> i}"
    using lt ni by (auto simp: ab)
  finally show ?thesis .
qed

lemma card_le_pairs_sorted:
  "sorted ab \<Longrightarrow> distinct ab \<Longrightarrow>
   card {(x, y). x \<in> set ab \<and> y \<in> set ab \<and> x \<le> y} = length ab * (length ab + 1) div 2"
proof (induction ab)
  case Nil
  then show ?case by simp
next
  case (Cons a ab)
  let ?R = "{(x, y). x \<in> set ab \<and> y \<in> set ab \<and> x \<le> y}"
  let ?A = "(\<lambda>y. (a, y)) ` set (a # ab)"
  from Cons.prems have a: "a \<notin> set ab" "\<forall>y\<in>set ab. a < y"
    by (auto simp: less_le)
  have split: "{(x, y). x \<in> set (a # ab) \<and> y \<in> set (a # ab) \<and> x \<le> y} = ?A \<union> ?R"
    using a by (auto simp: less_le)
  have disj: "?A \<inter> ?R = {}" using a by auto
  have fin: "finite ?A" "finite ?R"
    by (simp, rule finite_subset[of _ "set ab \<times> set ab"]) auto
  have cardA: "card ?A = Suc (length ab)"
    using Cons.prems by (subst card_image) (auto simp: inj_on_def distinct_card)
  have IH: "card ?R = length ab * (length ab + 1) div 2"
    using Cons by simp
  have "card (?A \<union> ?R) = card ?A + card ?R"
    using fin disj by (rule card_Un_disjoint)
  then show ?case
    unfolding split using cardA IH by simp
qed

lemma card_le_pairs:
  fixes ls :: "'a::linorder list"
  assumes "distinct ls"
  shows "card {(x, y). x \<in> set ls \<and> y \<in> set ls \<and> x \<le> y} = length ls * (length ls + 1) div 2"
  using card_le_pairs_sorted[of "sort ls"] assms by simp

section \<open>Folding a full matrix\<close>

lemma map_of_delete_update:
  "map_of (AList.delete k' (setitem d k v)) = ((map_of d)(k \<mapsto> v))(k' := None)"
  by (simp add: delete_conv' map_of_setitem)

lemma distinct_delete_setitem:
  "distinct (map fst d) \<Longrightarrow> distinct (map fst (AList.delete k' (setitem d k v)))"
  by (simp add: distinct_delete distinct_setitem)

lemma fold_row_ok:
  assumes "distinct js" "distinct (map fst d)"
    and "\<forall>j\<in>set js. j \<noteq> i \<longrightarrow> map_of d (j, i) \<noteq> None \<and> map_of d (i, j) \<noteq> None"
  shows "\<exists>d'. fold_row i js d = Inr d' \<and> distinct (map fst d') \<and>
     (\<forall>x y. map_of d' (x, y) =
        (if y = i \<and> x \<in> set js \<and> x \<noteq> i then Some (the (map_of d (x, i)) + the (map_of d (i, x)))
         else if x = i \<and> y \<in> set js \<and> y \<noteq> i then None
         else map_of d (x, y)))"
  using assms
proof (induction js arbitrary: d)
  case Nil
  then show ?case by simp
next
  case (Cons j js)
  show ?case
  proof (cases "i = j")
    case True
    with Cons.prems have "\<forall>j\<in>set js. j \<noteq> i \<longrightarrow> map_of d (j, i) \<noteq> None \<and> map_of d (i, j) \<noteq> None"
      "distinct js" "i \<notin> set js" by auto
    with Cons.IH[of d] Cons.prems(2) True show ?thesis by auto
  next
    case False
    from Cons.prems False obtain x y where xy: "map_of d (j, i) = Some x" "map_of d (i, j) = Some y"
      by auto
    let ?d1 = "AList.delete (i, j) (setitem d (j, i) (x + y))"
    have m1: "map_of ?d1 = ((map_of d)((j, i) \<mapsto> x + y))((i, j) := None)"
      by (rule map_of_delete_update)
    have step: "fold_row i (j # js) d = fold_row i js ?d1"
      using False xy by (simp add: getitem_def delitem_def map_of_setitem)
    have d1: "distinct (map fst ?d1)"
      using Cons.prems(2) by (rule distinct_delete_setitem)
    have pre: "\<forall>j'\<in>set js. j' \<noteq> i \<longrightarrow> map_of ?d1 (j', i) \<noteq> None \<and> map_of ?d1 (i, j') \<noteq> None"
      using Cons.prems(1,3) False by (auto simp: m1)
    from Cons.prems(1) have djs: "distinct js" "j \<notin> set js" by auto
    from Cons.IH[OF djs(1) d1 pre] obtain d' where d':
      "fold_row i js ?d1 = Inr d'" "distinct (map fst d')"
      "\<forall>x y. map_of d' (x, y) =
        (if y = i \<and> x \<in> set js \<and> x \<noteq> i then Some (the (map_of ?d1 (x, i)) + the (map_of ?d1 (i, x)))
         else if x = i \<and> y \<in> set js \<and> y \<noteq> i then None
         else map_of ?d1 (x, y))"
      by blast
    have "\<forall>a b. map_of d' (a, b) =
        (if b = i \<and> a \<in> set (j # js) \<and> a \<noteq> i then Some (the (map_of d (a, i)) + the (map_of d (i, a)))
         else if a = i \<and> b \<in> set (j # js) \<and> b \<noteq> i then None
         else map_of d (a, b))"
      using d'(3) djs(2) False xy by (auto simp: m1)
    with d'(1,2) step show ?thesis by auto
  qed
qed

lemma fold_rows_ok:
  assumes "sorted (pre @ is)" "distinct (pre @ is)" "distinct (map fst d)"
    and "\<forall>x\<in>set (pre @ is). \<forall>y\<in>set (pre @ is). f (x, y) \<noteq> None"
    and "map_of d = fold_spec (set pre) f"
  shows "\<exists>d'. fold_rows (pre @ is) is d = Inr d' \<and> distinct (map fst d') \<and>
     map_of d' = fold_spec (set (pre @ is)) f"
  using assms
proof (induction "is" arbitrary: pre d)
  case Nil
  then show ?case by simp
next
  case (Cons i "is")
  let ?ab = "pre @ i # is"
  from Cons.prems(2) have ni: "i \<notin> set pre" "i \<notin> set is" "distinct pre" by auto
  from Cons.prems(1) have lt: "\<forall>x\<in>set pre. x \<le> i" by (auto simp: sorted_append)
  with ni have lt': "\<forall>x\<in>set pre. x < i" by (auto simp: less_le)
  have up: "upto_letter ?ab i = pre @ [i]" using ni by (simp add: upto_letter_append)
  have dom: "\<forall>j\<in>set (pre @ [i]). j \<noteq> i \<longrightarrow> map_of d (j, i) \<noteq> None \<and> map_of d (i, j) \<noteq> None"
    using Cons.prems(4,5) ni by (auto simp: fold_spec_def)
  have dis: "distinct (pre @ [i])" using ni by simp
  from fold_row_ok[OF dis Cons.prems(3) dom] obtain d1 where d1:
    "fold_row i (pre @ [i]) d = Inr d1" "distinct (map fst d1)"
    "\<forall>x y. map_of d1 (x, y) =
        (if y = i \<and> x \<in> set (pre @ [i]) \<and> x \<noteq> i then Some (the (map_of d (x, i)) + the (map_of d (i, x)))
         else if x = i \<and> y \<in> set (pre @ [i]) \<and> y \<noteq> i then None
         else map_of d (x, y))"
    by blast
  have m1: "map_of d1 = fold_spec (set (pre @ [i])) f"
  proof (rule ext)
    fix k :: key
    obtain x y where k: "k = (x, y)" by (cases k)
    show "map_of d1 k = fold_spec (set (pre @ [i])) f k"
      unfolding k using d1(3) lt' ni Cons.prems(5)
      by (auto simp: fold_spec_def)
  qed
  have s': "sorted ((pre @ [i]) @ is)" "distinct ((pre @ [i]) @ is)"
    "\<forall>x\<in>set ((pre @ [i]) @ is). \<forall>y\<in>set ((pre @ [i]) @ is). f (x, y) \<noteq> None"
    using Cons.prems(1,2,4) by simp_all
  from Cons.IH[OF s'(1,2) d1(2) s'(3) m1] obtain d' where
    "fold_rows ((pre @ [i]) @ is) is d1 = Inr d'" "distinct (map fst d')"
    "map_of d' = fold_spec (set ((pre @ [i]) @ is)) f" by blast
  then show ?case using d1(1) up by simp
qed

lemma fold_spec_empty: "fold_spec {} f = f"
  by (auto simp: fold_spec_def fun_eq_iff)

lemma half_matrix_keys:
  "half_matrix m \<Longrightarrow>
   dom (map_of (data m)) = {(x, y). x \<in> set (letters m) \<and> y \<in> set (letters m) \<and> x \<le> y}"
  unfolding half_matrix_def keys_eq_dom[symmetric] by auto

lemma half_matrix_length:
  assumes "half_matrix m"
  shows "length (data m) = length (letters m) * (length (letters m) + 1) div 2"
proof -
  from assms have d: "distinct (map fst (data m))" "distinct (letters m)"
    by (auto simp: half_matrix_def)
  show ?thesis
    using length_eq_card_dom[OF d(1)] half_matrix_keys[OF assms] card_le_pairs[OF d(2)]
    by simp
qed

lemma full_matrix_length:
  assumes "full_matrix m"
  shows "length (data m) = length (letters m) ^ 2"
proof -
  from assms have d: "distinct (map fst (data m))" "distinct (letters m)"
    and k: "set (map fst (data m)) = set (letters m) \<times> set (letters m)"
    by (auto simp: full_matrix_def)
  have "length (data m) = card (set (map fst (data m)))"
    using distinct_card[OF d(1)] by simp
  also have "\<dots> = card (set (letters m)) * card (set (letters m))"
    unfolding k by (simp add: card_cartesian_product)
  finally show ?thesis using distinct_card[OF d(2)] by (simp add: power2_eq_square)
qed

lemma full_matrix_fold_rows:
  assumes "full_matrix m"
  shows "\<exists>d'. fold_rows (ab_list m) (ab_list m) (data m) = Inr d' \<and> distinct (map fst d') \<and>
     map_of d' = fold_spec (set (letters m)) (map_of (data m))"
proof -
  from assms have d: "distinct (map fst (data m))" "distinct (letters m)"
    and ab: "ab_list m = sort (letters m)"
    and k: "set (map fst (data m)) = set (letters m) \<times> set (letters m)"
    by (auto simp: full_matrix_def)
  have dom: "\<forall>x\<in>set ([] @ ab_list m). \<forall>y\<in>set ([] @ ab_list m). map_of (data m) (x, y) \<noteq> None"
    using k unfolding keys_eq_dom by (auto simp: ab)
  have "\<exists>d'. fold_rows ([] @ ab_list m) (ab_list m) (data m) = Inr d' \<and> distinct (map fst d') \<and>
     map_of d' = fold_spec (set ([] @ ab_list m)) (map_of (data m))"
    by (rule fold_rows_ok) (use d dom in \<open>simp_all add: ab fold_spec_empty\<close>)
  then show ?thesis by (simp add: ab)
qed

lemma dom_fold_spec_full:
  assumes "dom f = S \<times> S"
  shows "dom (fold_spec S f) = {(x, y). x \<in> S \<and> y \<in> S \<and> x \<le> (y::char)}"
proof -
  have "\<And>x y. (fold_spec S f (x, y) \<noteq> None) = (x \<in> S \<and> y \<in> S \<and> x \<le> y)"
    using assms by (auto simp: fold_spec_def dom_def set_eq_iff)
  then show ?thesis by (auto simp: dom_def)
qed

lemma square_eq_triangle: "(n::nat) ^ 2 = n * (n + 1) div 2 \<Longrightarrow> n = 0 \<or> n = 1"
proof -
  assume a: "n ^ 2 = n * (n + 1) div 2"
  have "even (n * (n + 1))" by simp
  then have "2 * (n * (n + 1) div 2) = n * (n + 1)" by (rule dvd_mult_div_cancel)
  with a have "2 * (n * n) = n * (n + 1)" by (simp add: power2_eq_square)
  then have "n * n = n" by (simp add: algebra_simps)
  then show ?thesis by (cases n) auto
qed

lemma full_matrix_folded:
  assumes "full_matrix m"
  shows "\<exists>d'. full_to_half m = Inr (m\<lparr>data := d'\<rparr>) \<and> distinct (map fst d') \<and>
     map_of d' = fold_spec (set (letters m)) (map_of (data m)) \<and>
     length d' = length (letters m) * (length (letters m) + 1) div 2"
proof -
  let ?N = "length (letters m)"
  from assms have dl: "distinct (letters m)"
    and k: "set (map fst (data m)) = set (letters m) \<times> set (letters m)"
    and dk: "distinct (map fst (data m))"
    by (auto simp: full_matrix_def)
  have domf: "dom (map_of (data m)) = set (letters m) \<times> set (letters m)"
    using k by (simp add: dom_map_of_conv_image_fst)
  show ?thesis
  proof (cases "length (data m) = ?N * (?N + 1) div 2")
    case True
    with full_matrix_length[OF assms] have "?N ^ 2 = ?N * (?N + 1) div 2" by simp
    then have N: "?N = 0 \<or> ?N = 1" by (rule square_eq_triangle)
    have one: "\<And>a b. a \<in> set (letters m) \<Longrightarrow> b \<in> set (letters m) \<Longrightarrow> a = b"
      using N by (cases "letters m") auto
    have "map_of (data m) = fold_spec (set (letters m)) (map_of (data m))"
    proof (rule ext)
      fix kk :: key
      obtain x y where kk: "kk = (x, y)" by (cases kk)
      show "map_of (data m) kk = fold_spec (set (letters m)) (map_of (data m)) kk"
        unfolding kk using one by (auto simp: fold_spec_def)
    qed
    with True dk show ?thesis
      by (intro exI[of _ "data m"]) (simp add: full_to_half_def)
  next
    case False
    from full_matrix_fold_rows[OF assms] obtain d' where d':
      "fold_rows (ab_list m) (ab_list m) (data m) = Inr d'" "distinct (map fst d')"
      "map_of d' = fold_spec (set (letters m)) (map_of (data m))" by blast
    have "length d' = card (dom (map_of d'))" using d'(2) by (rule length_eq_card_dom)
    also have "\<dots> = ?N * (?N + 1) div 2"
      unfolding d'(3) dom_fold_spec_full[OF domf] using card_le_pairs[OF dl] by simp
    finally have "length d' = ?N * (?N + 1) div 2" .
    with d' False show ?thesis
      by (intro exI[of _ d']) (simp add: full_to_half_def)
  qed
qed

section \<open>The worked example, stage by stage\<close>

lemma example_constructed: "SeqMat example_dict None ACCREP [] False = Inr example_arm"
  by (simp add: SeqMat_def alphabet_from_matrix_def full_to_half_def Let_def example_arm_def
      example_dict_def)

lemma example_obs_stage: "build_obs_freq_mat example_arm = Inr example_obs"
  by (simp add: Let_def build_obs_freq_mat_def SeqMat_def init_zero_def upto_letter_def
      setitem_def getitem_def py_div_def example_arm_def example_dict_def example_obs_def
      example_freq_def)

lemma example_table_stage: "exp_freq_table_from_obs_freq example_obs = Inr example_table"
  by (simp add: exp_freq_table_from_obs_freq_def setitem_def getitem_def FreqTable_FREQ_def
      example_obs_def example_freq_def example_table_def)

lemma example_exp_stage: "build_exp_freq_mat example_table = Inr example_exp"
  by (simp add: Let_def build_exp_freq_mat_def SeqMat_def init_zero_def upto_letter_def
      setitem_def getitem_def power2_eq_square example_table_def example_exp_def
      example_freq_def)

lemma example_subs_stage: "build_subs_mat example_obs example_exp = Inr example_subs"
  by (simp add: Let_def build_subs_mat_def SeqMat_def alphabet_from_matrix_def full_to_half_def
      setitem_def getitem_def py_div_def example_obs_def example_exp_def example_freq_def
      example_subs_def)

lemma example_lo_stage: "build_log_odds_mat example_subs 10 10 0 = Inr example_lo"
  by (simp add: Let_def build_log_odds_mat_def SeqMat_def alphabet_from_matrix_def
      full_to_half_def setitem_def getitem_def py_div_def py_log_def py_round_def
      example_subs_def example_lo_def)

text \<open>
  Claim C1. The accepted replacement half matrix \<open>{(A,A): 10, (C,C): 10, (A,C): 20}\<close> is
  accepted by the constructor, and \<open>make_log_odds_matrix\<close> called on it without an expected
  frequency table and with the default parameters (\<open>logbase=10, factor=10.0,
  round_digit=0\<close>) returns a matrix of type \<open>LO\<close> whose three cells \<open>(A,A)\<close>, \<open>(A,C)\<close>
  and \<open>(C,C)\<close> are all \<open>0\<close>.
\<close>

theorem make_log_odds_matrix_example:
  "SeqMat example_dict None ACCREP [] False = Inr example_arm \<and>
   make_log_odds_matrix example_arm None 10 10 0 =
     Inr \<lparr>data = [((CHR ''A'', CHR ''A''), 0), ((CHR ''A'', CHR ''C''), 0),
                 ((CHR ''C'', CHR ''C''), 0)],
          letters = ''AC'', ab_list = ''AC'', mat_type = LO, mat_name = [], sum_letters = []\<rparr> \<and>
   make_log_odds_matrix_default example_arm = make_log_odds_matrix example_arm None 10 10 0"
  by (simp add: make_log_odds_matrix_def make_log_odds_matrix_default_def example_constructed
      example_obs_stage example_table_stage example_exp_stage example_subs_stage
      example_lo_stage example_lo_def)

section \<open>The result of folding\<close>

lemma value_at_Some: "map_of d k = Some v \<Longrightarrow> value_at d k = v"
  by (simp add: value_at_def)

lemma full_to_half_half_sized:
  "length (data m) = length (letters m) * (length (letters m) + 1) div 2 \<Longrightarrow> full_to_half m = Inr m"
  by (simp add: full_to_half_def)

text \<open>
  Claim C3. \<open>_full_to_half\<close> returns a matrix that already has \<open>N*(N+1)/2\<close> entries
  unchanged. On a full matrix (one entry per ordered pair of letters of a duplicate-free
  alphabet) it succeeds, and in the result every pair \<open>(i, j)\<close> with \<open>i\<close> before \<open>j\<close> in
  sorted order holds the sum of the entries \<open>(i, j)\<close> and \<open>(j, i)\<close> of the full matrix, the
  key \<open>(j, i)\<close> is gone, every diagonal entry is as it was, the result has
  \<open>N*(N+1)/2\<close> entries, and folding the result again returns it unchanged.
\<close>

theorem full_to_half_folds:
  "(length (data m) = length (letters m) * (length (letters m) + 1) div 2 \<longrightarrow>
      full_to_half m = Inr m) \<and>
   (full_matrix m \<longrightarrow>
      (\<exists>h. full_to_half m = Inr h \<and> letters h = letters m \<and>
         (\<forall>i\<in>set (letters m). \<forall>j\<in>set (letters m). i < j \<longrightarrow>
            getitem (data h) (i, j) = Inr (value_at (data m) (i, j) + value_at (data m) (j, i)) \<and>
            getitem (data h) (j, i) = Inl KeyError) \<and>
         (\<forall>a\<in>set (letters m). getitem (data h) (a, a) = getitem (data m) (a, a)) \<and>
         length (data h) = length (letters m) * (length (letters m) + 1) div 2 \<and>
         full_to_half h = Inr h))"
proof (intro conjI impI)
  assume "length (data m) = length (letters m) * (length (letters m) + 1) div 2"
  then show "full_to_half m = Inr m" by (rule full_to_half_half_sized)
next
  assume fm: "full_matrix m"
  let ?S = "set (letters m)"
  let ?f = "map_of (data m)"
  from full_matrix_folded[OF fm] obtain d' where d':
    "full_to_half m = Inr (m\<lparr>data := d'\<rparr>)" "distinct (map fst d')"
    "map_of d' = fold_spec ?S ?f"
    "length d' = length (letters m) * (length (letters m) + 1) div 2" by blast
  from fm have "dom ?f = ?S \<times> ?S"
    by (simp add: full_matrix_def dom_map_of_conv_image_fst)
  then have ex: "\<And>x y. x \<in> ?S \<Longrightarrow> y \<in> ?S \<Longrightarrow> \<exists>v. ?f (x, y) = Some v"
    by (auto simp: dom_def set_eq_iff)
  let ?h = "m\<lparr>data := d'\<rparr>"
  have off: "\<forall>i\<in>?S. \<forall>j\<in>?S. i < j \<longrightarrow>
            getitem (data ?h) (i, j) = Inr (value_at (data m) (i, j) + value_at (data m) (j, i)) \<and>
            getitem (data ?h) (j, i) = Inl KeyError"
  proof (intro ballI impI)
    fix i j assume ij: "i \<in> ?S" "j \<in> ?S" "i < j"
    from ex[OF ij(1,2)] obtain v where v: "?f (i, j) = Some v" by blast
    from ex[OF ij(2,1)] obtain w where w: "?f (j, i) = Some w" by blast
    have "map_of d' (i, j) = Some (v + w)"
      using ij v w by (simp add: d'(3) fold_spec_def)
    moreover have "map_of d' (j, i) = None"
      using ij by (auto simp: d'(3) fold_spec_def)
    ultimately show "getitem (data ?h) (i, j) = Inr (value_at (data m) (i, j) + value_at (data m) (j, i)) \<and>
            getitem (data ?h) (j, i) = Inl KeyError"
      using v w by (simp add: getitem_def value_at_def)
  qed
  have diag: "\<forall>a\<in>?S. getitem (data ?h) (a, a) = getitem (data m) (a, a)"
    by (simp add: getitem_def d'(3) fold_spec_def)
  have again: "full_to_half ?h = Inr ?h"
    using d'(4) by (simp add: full_to_half_def)
  show "\<exists>h. full_to_half m = Inr h \<and> letters h = letters m \<and>
         (\<forall>i\<in>set (letters m). \<forall>j\<in>set (letters m). i < j \<longrightarrow>
            getitem (data h) (i, j) = Inr (value_at (data m) (i, j) + value_at (data m) (j, i)) \<and>
            getitem (data h) (j, i) = Inl KeyError) \<and>
         (\<forall>a\<in>set (letters m). getitem (data h) (a, a) = getitem (data m) (a, a)) \<and>
         length (data h) = length (letters m) * (length (letters m) + 1) div 2 \<and>
         full_to_half h = Inr h"
    using d'(1,4) off diag again by (intro exI[of _ ?h]) simp
qed

lemma example_full_is_full: "full_matrix example_full"
  by (simp add: full_matrix_def example_full_def)

lemma example_full_folded:
  "full_to_half example_full =
     Inr (example_full\<lparr>data := [((CHR ''A'', CHR ''A''), 1), ((CHR ''A'', CHR ''C''), 33),
                                 ((CHR ''C'', CHR ''C''), 4)]\<rparr>)"
  by (simp add: full_to_half_def example_full_def upto_letter_def getitem_def setitem_def
      delitem_def)

theorem full_to_half_folds_witness:
  "length (data example_arm) = length (letters example_arm) * (length (letters example_arm) + 1) div 2 \<and>
   full_to_half example_arm = Inr example_arm \<and>
   full_matrix example_full \<and>
   (\<exists>h. full_to_half example_full = Inr h \<and>
      getitem (data h) (CHR ''A'', CHR ''C'') = Inr 33 \<and>
      getitem (data h) (CHR ''C'', CHR ''A'') = Inl KeyError \<and>
      getitem (data h) (CHR ''A'', CHR ''A'') = Inr 1 \<and>
      full_to_half h = Inr h)"
proof -
  have len: "length (data example_arm) =
      length (letters example_arm) * (length (letters example_arm) + 1) div 2"
    by (simp add: example_arm_def example_dict_def)
  from full_to_half_folds[of example_arm] len
  have a: "full_to_half example_arm = Inr example_arm" by blast
  from full_to_half_folds[of example_full] example_full_is_full
  obtain h where h: "full_to_half example_full = Inr h"
    "\<forall>i\<in>set (letters example_full). \<forall>j\<in>set (letters example_full). i < j \<longrightarrow>
        getitem (data h) (i, j) =
          Inr (value_at (data example_full) (i, j) + value_at (data example_full) (j, i)) \<and>
        getitem (data h) (j, i) = Inl KeyError"
    "\<forall>a\<in>set (letters example_full). getitem (data h) (a, a) = getitem (data example_full) (a, a)"
    "full_to_half h = Inr h" by blast
  have "getitem (data h) (CHR ''A'', CHR ''C'') = Inr 33 \<and>
        getitem (data h) (CHR ''C'', CHR ''A'') = Inl KeyError"
    using h(2) by (simp add: example_full_def value_at_def)
  moreover have "getitem (data h) (CHR ''A'', CHR ''A'') = Inr 1"
    using h(3) by (simp add: example_full_def getitem_def)
  ultimately show ?thesis using len a h(1,4) example_full_is_full by blast
qed

section \<open>Entropy\<close>

lemma own_key_present: "k \<in> set (map fst d) \<Longrightarrow> map_of d k \<noteq> None"
  by (simp add: map_of_eq_None_iff)

lemma entropy_lo_sum:
  assumes "\<forall>k\<in>set ks. map_of self k \<noteq> None \<and> map_of obs k \<noteq> None"
  shows "entropy_lo self obs ks ent =
     Inr (ent + sum_list (map (\<lambda>k. value_at obs k * value_at self k / ln 2) ks))"
  using assms
proof (induction ks arbitrary: ent)
  case Nil
  then show ?case by simp
next
  case (Cons k ks)
  from Cons.prems obtain s f where sf: "map_of self k = Some s" "map_of obs k = Some f"
    by auto
  from Cons.prems have rest: "\<forall>k\<in>set ks. map_of self k \<noteq> None \<and> map_of obs k \<noteq> None"
    by simp
  have vs: "value_at self k = s" "value_at obs k = f"
    by (simp_all add: value_at_def sf)
  show ?case
    by (simp add: getitem_def sf vs Cons.IH[OF rest] add.assoc)
qed

lemma entropy_subs_sum:
  assumes "\<forall>k\<in>set ks. map_of self k \<noteq> None \<and> map_of obs k \<noteq> None \<and> 0 < value_at self k"
  shows "entropy_subs self obs ks ent =
     Inr (ent + sum_list (map (\<lambda>k. value_at obs k * ln (value_at self k) / ln 2) ks))"
  using assms
proof (induction ks arbitrary: ent)
  case Nil
  then show ?case by simp
next
  case (Cons k ks)
  from Cons.prems obtain s f where sf: "map_of self k = Some s" "map_of obs k = Some f"
    by auto
  have vs: "value_at self k = s" "value_at obs k = f"
    by (simp_all add: value_at_def sf)
  from Cons.prems have "0 < value_at self k" by simp
  then have pos: "0 < s" by (simp add: vs)
  from Cons.prems have rest:
    "\<forall>k\<in>set ks. map_of self k \<noteq> None \<and> map_of obs k \<noteq> None \<and> 0 < value_at self k"
    by simp
  have "\<not> s \<le> 0" using pos by simp
  then show ?case
    by (simp add: getitem_def sf vs py_log_def Cons.IH[OF rest] add.assoc)
qed

text \<open>
  Claim C8. \<open>entropy\<close> raises \<open>TypeError\<close> for every matrix whose type is neither \<open>SUBS\<close>
  nor \<open>LO\<close>, in particular for one of type \<open>OBSFREQ\<close>. For a matrix of type \<open>LO\<close> and an
  observed frequency matrix \<open>F\<close> that has all its keys, it returns the sum over the keys of
  \<open>F[k] * self[k] / log(2)\<close>; for a matrix of type \<open>SUBS\<close> with positive entries it returns
  the sum over the keys of \<open>F[k] * log(self[k]) / log(2)\<close>. Each key is counted once.
\<close>

theorem entropy_by_type:
  "(mat_type self \<noteq> LO \<and> mat_type self \<noteq> SUBS \<longrightarrow> entropy self F = Inl TypeError) \<and>
   (mat_type self = OBSFREQ \<longrightarrow> entropy self F = Inl TypeError) \<and>
   (mat_type self = LO \<and> (\<forall>k\<in>set (map fst (data self)). map_of (data F) k \<noteq> None) \<longrightarrow>
      entropy self F =
        Inr (sum_list (map (\<lambda>k. value_at (data F) k * value_at (data self) k / ln 2)
               (map fst (data self))))) \<and>
   (mat_type self = SUBS \<and> (\<forall>k\<in>set (map fst (data self)). map_of (data F) k \<noteq> None) \<and>
      (\<forall>k\<in>set (map fst (data self)). 0 < value_at (data self) k) \<longrightarrow>
      entropy self F =
        Inr (sum_list (map (\<lambda>k. value_at (data F) k * ln (value_at (data self) k) / ln 2)
               (map fst (data self)))))"
proof (intro conjI impI)
  assume "mat_type self \<noteq> LO \<and> mat_type self \<noteq> SUBS"
  then show "entropy self F = Inl TypeError" by (simp add: entropy_def)
next
  assume "mat_type self = OBSFREQ"
  then show "entropy self F = Inl TypeError"
    by (simp add: entropy_def OBSFREQ_def LO_def SUBS_def)
next
  assume a: "mat_type self = LO \<and> (\<forall>k\<in>set (map fst (data self)). map_of (data F) k \<noteq> None)"
  have own: "\<forall>k\<in>set (map fst (data self)). map_of (data self) k \<noteq> None"
    by (simp add: map_of_eq_None_iff)
  with a have "\<forall>k\<in>set (map fst (data self)).
      map_of (data self) k \<noteq> None \<and> map_of (data F) k \<noteq> None"
    by simp
  from entropy_lo_sum[OF this, of 0] a
  show "entropy self F =
        Inr (sum_list (map (\<lambda>k. value_at (data F) k * value_at (data self) k / ln 2)
               (map fst (data self))))"
    by (simp add: entropy_def)
next
  assume a: "mat_type self = SUBS \<and> (\<forall>k\<in>set (map fst (data self)). map_of (data F) k \<noteq> None) \<and>
      (\<forall>k\<in>set (map fst (data self)). 0 < value_at (data self) k)"
  have own: "\<forall>k\<in>set (map fst (data self)). map_of (data self) k \<noteq> None"
    by (simp add: map_of_eq_None_iff)
  with a have "\<forall>k\<in>set (map fst (data self)).
      map_of (data self) k \<noteq> None \<and> map_of (data F) k \<noteq> None \<and> 0 < value_at (data self) k"
    by simp
  from entropy_subs_sum[OF this, of 0] a
  show "entropy self F =
        Inr (sum_list (map (\<lambda>k. value_at (data F) k * ln (value_at (data self) k) / ln 2)
               (map fst (data self))))"
    by (simp add: entropy_def SUBS_def LO_def)
qed

theorem entropy_by_type_witness:
  "mat_type example_obs \<noteq> LO \<and> mat_type example_obs \<noteq> SUBS \<and> mat_type example_obs = OBSFREQ \<and>
   entropy example_obs example_obs = Inl TypeError \<and>
   mat_type example_lo = LO \<and>
   entropy example_lo example_obs = Inr 0 \<and>
   mat_type example_subs = SUBS \<and>
   entropy example_subs example_obs = Inr 0"
proof -
  have t: "mat_type example_obs \<noteq> LO \<and> mat_type example_obs \<noteq> SUBS"
    by (simp add: example_obs_def OBSFREQ_def LO_def SUBS_def)
  have t': "mat_type example_obs = OBSFREQ"
    by (simp add: example_obs_def)
  have l1: "mat_type example_lo = LO"
    by (simp add: example_lo_def)
  have l2: "\<forall>k\<in>set (map fst (data example_lo)). map_of (data example_obs) k \<noteq> None"
    by (simp add: example_lo_def example_obs_def example_freq_def del: not_None_eq)
  have s1: "mat_type example_subs = SUBS"
    by (simp add: example_subs_def)
  have s2: "\<forall>k\<in>set (map fst (data example_subs)). map_of (data example_obs) k \<noteq> None"
    by (simp add: example_subs_def example_obs_def example_freq_def del: not_None_eq)
  have s3: "\<forall>k\<in>set (map fst (data example_subs)). 0 < value_at (data example_subs) k"
    by (simp add: example_subs_def value_at_def)
  note th_obs = entropy_by_type[of example_obs example_obs]
  note th_lo = entropy_by_type[of example_lo example_obs]
  note th_subs = entropy_by_type[of example_subs example_obs]
  have 1: "entropy example_obs example_obs = Inl TypeError"
    using th_obs[THEN conjunct1] t by (rule mp)
  have "entropy example_lo example_obs =
        Inr (sum_list (map (\<lambda>k. value_at (data example_obs) k * value_at (data example_lo) k / ln 2)
               (map fst (data example_lo))))"
    using th_lo[THEN conjunct2, THEN conjunct2, THEN conjunct1] conjI[OF l1 l2] by (rule mp)
  then have 2: "entropy example_lo example_obs = Inr 0"
    by (simp add: example_lo_def value_at_def)
  have "entropy example_subs example_obs =
        Inr (sum_list (map (\<lambda>k. value_at (data example_obs) k * ln (value_at (data example_subs) k) / ln 2)
               (map fst (data example_subs))))"
    using th_subs[THEN conjunct2, THEN conjunct2, THEN conjunct2] conjI[OF s1 conjI[OF s2 s3]]
    by (rule mp)
  then have 3: "entropy example_subs example_obs = Inr 0"
    by (simp add: example_subs_def value_at_def)
  show ?thesis
    by (intro conjI) (rule t[THEN conjunct1] t[THEN conjunct2] t' 1 l1 2 s1 3)+
qed

section \<open>The observed frequency stage on a zero total\<close>

lemma fold_plus: "fold (\<lambda>v s. s + v) vs (a::real) = a + sum_list vs"
  by (induction vs arbitrary: a) (simp_all add: add.assoc)

lemma total_sum_list: "fold (\<lambda>v s. s + v) vs (0::real) = sum_list vs"
  by (simp add: fold_plus)

lemma obs_freq_loop_zero:
  "ks = map fst arm \<Longrightarrow> arm \<noteq> [] \<Longrightarrow> obs_freq_loop arm 0 ks d = Inl ZeroDivisionError"
  by (cases arm) (auto simp: getitem_def py_div_def)

lemma SeqMat_build_later:
  "SeqMat [] (Some ls) t n True =
     Inr \<lparr>data = init_zero_rows (sort ls) (sort ls) [], letters = ls, ab_list = sort ls,
          mat_type = t, mat_name = n, sum_letters = []\<rparr>"
  by (cases ls) (simp_all add: SeqMat_def alphabet_from_matrix_def init_zero_def Let_def)

text \<open>
  Claim C5, as the source has it. When the values of the accepted replacement matrix sum to
  \<open>0\<close> and the matrix has at least one entry, \<open>_build_obs_freq_mat\<close> fails with
  \<open>ZeroDivisionError\<close> at the first division and returns no matrix.
\<close>

theorem build_obs_freq_mat_zero_total:
  "data acc_rep_mat \<noteq> [] \<and> sum_list (map snd (data acc_rep_mat)) = 0 \<longrightarrow>
     build_obs_freq_mat acc_rep_mat = Inl ZeroDivisionError"
proof
  assume a: "data acc_rep_mat \<noteq> [] \<and> sum_list (map snd (data acc_rep_mat)) = 0"
  then have "obs_freq_loop (data acc_rep_mat) 0 (map fst (data acc_rep_mat))
      (init_zero_rows (sort (letters acc_rep_mat)) (sort (letters acc_rep_mat)) []) =
      Inl ZeroDivisionError"
    by (intro obs_freq_loop_zero) simp_all
  with a show "build_obs_freq_mat acc_rep_mat = Inl ZeroDivisionError"
    by (simp add: build_obs_freq_mat_def total_sum_list SeqMat_build_later)
qed

theorem build_obs_freq_mat_zero_total_witness:
  "data zero_arm \<noteq> [] \<and> sum_list (map snd (data zero_arm)) = 0 \<and>
   build_obs_freq_mat zero_arm = Inl ZeroDivisionError"
proof -
  have h: "data zero_arm \<noteq> [] \<and> sum_list (map snd (data zero_arm)) = 0"
    by (simp add: zero_arm_def)
  from build_obs_freq_mat_zero_total[of zero_arm] h
  have "build_obs_freq_mat zero_arm = Inl ZeroDivisionError" by (rule mp)
  with h show ?thesis by simp
qed

text \<open>Claim C5 as stated, for every matrix with total \<open>0\<close>, fails on the matrix without
  entries: it has total \<open>0\<close>, is accepted by the constructor, and the stage returns the
  observed frequency matrix without entries; no error is raised.\<close>

theorem build_obs_freq_mat_empty:
  "SeqMat [] None ACCREP [] False = Inr empty_arm \<and>
   sum_list (map snd (data empty_arm)) = 0 \<and>
   build_obs_freq_mat empty_arm =
     Inr \<lparr>data = [], letters = [], ab_list = [], mat_type = OBSFREQ, mat_name = [],
          sum_letters = []\<rparr>"
  by (simp add: SeqMat_def alphabet_from_matrix_def full_to_half_def Let_def empty_arm_def
      build_obs_freq_mat_def init_zero_def NOTYPE_def)

section \<open>Looking up a pair in both orders\<close>

text \<open>Claim C2 as stated, that the lookup of \<open>(a, b)\<close> and of \<open>(b, a)\<close> both succeed with
  the same value, fails on the example matrix: the pair \<open>(A, C)\<close> is stored, \<open>(C, A)\<close> is
  not, and the lookup of \<open>(C, A)\<close> raises \<open>KeyError\<close>.\<close>

theorem lookup_not_symmetric:
  "SeqMat example_dict None ACCREP [] False = Inr example_arm \<and>
   getitem (data example_arm) (CHR ''A'', CHR ''C'') = Inr 20 \<and>
   getitem (data example_arm) (CHR ''C'', CHR ''A'') = Inl KeyError"
  by (simp add: example_constructed) (simp add: example_arm_def example_dict_def getitem_def)

section \<open>One stored entry per unordered pair\<close>

lemma half_matrix_stored:
  assumes "half_matrix m" "x \<in> set (letters m)" "y \<in> set (letters m)"
  shows "(map_of (data m) (x, y) \<noteq> None) = (x \<le> y)"
proof -
  have "((x, y) \<in> dom (map_of (data m))) = (x \<le> y)"
    unfolding half_matrix_keys[OF assms(1)] using assms(2,3) by simp
  then show ?thesis by (simp add: dom_def)
qed

text \<open>
  Claim C2, as the source has it. In a half matrix (keys in the order \<open>(low, high)\<close>, one
  per unordered pair over the alphabet) and for letters \<open>a\<close>, \<open>b\<close> of its alphabet, the
  pair is stored once, under the key \<open>(min a b, max a b)\<close>; the plain lookup of the other
  order raises \<open>KeyError\<close> when \<open>a \<noteq> b\<close>. The lookup of \<open>print_mat\<close>, which tries one order
  and falls back to the other, succeeds and gives that stored value for \<open>(a, b)\<close> and for
  \<open>(b, a)\<close>.
\<close>

theorem print_lookup_symmetric:
  "half_matrix m \<and> a \<in> set (letters m) \<and> b \<in> set (letters m) \<longrightarrow>
     (\<exists>v. getitem (data m) (min a b, max a b) = Inr v \<and>
          print_lookup m a b = Inr v \<and> print_lookup m b a = Inr v) \<and>
     (a \<noteq> b \<longrightarrow> getitem (data m) (max a b, min a b) = Inl KeyError)"
proof
  assume h: "half_matrix m \<and> a \<in> set (letters m) \<and> b \<in> set (letters m)"
  then have hm: "half_matrix m" and a: "a \<in> set (letters m)" and b: "b \<in> set (letters m)"
    by simp_all
  show "(\<exists>v. getitem (data m) (min a b, max a b) = Inr v \<and>
          print_lookup m a b = Inr v \<and> print_lookup m b a = Inr v) \<and>
     (a \<noteq> b \<longrightarrow> getitem (data m) (max a b, min a b) = Inl KeyError)"
  proof (cases "a \<le> b")
    case True
    with half_matrix_stored[OF hm a b] obtain v where v: "map_of (data m) (a, b) = Some v"
      by auto
    have n: "a \<noteq> b \<Longrightarrow> map_of (data m) (b, a) = None"
      using half_matrix_stored[OF hm b a] True by auto
    show ?thesis
    proof (cases "a = b")
      case True
      then show ?thesis using v by (simp add: getitem_def print_lookup_def)
    next
      case False
      with True n v \<open>a \<le> b\<close> show ?thesis
        by (simp add: getitem_def print_lookup_def min_def max_def)
    qed
  next
    case False
    then have ba: "b \<le> a" "a \<noteq> b" by auto
    with half_matrix_stored[OF hm b a] obtain v where v: "map_of (data m) (b, a) = Some v"
      by auto
    have n: "map_of (data m) (a, b) = None"
      using half_matrix_stored[OF hm a b] False by auto
    from False ba n v show ?thesis
      by (simp add: getitem_def print_lookup_def min_def max_def)
  qed
qed

lemma example_arm_half: "half_matrix example_arm"
  by (simp add: half_matrix_def example_arm_def example_dict_def)

theorem print_lookup_symmetric_witness:
  "half_matrix example_arm \<and> CHR ''C'' \<in> set (letters example_arm) \<and>
   CHR ''A'' \<in> set (letters example_arm) \<and>
   getitem (data example_arm) (CHR ''A'', CHR ''C'') = Inr 20 \<and>
   print_lookup example_arm (CHR ''C'') (CHR ''A'') = Inr 20 \<and>
   print_lookup example_arm (CHR ''A'') (CHR ''C'') = Inr 20 \<and>
   getitem (data example_arm) (CHR ''C'', CHR ''A'') = Inl KeyError"
proof -
  have h: "half_matrix example_arm \<and> CHR ''C'' \<in> set (letters example_arm) \<and>
      CHR ''A'' \<in> set (letters example_arm)"
    using example_arm_half by (simp add: example_arm_def)
  have mm: "min (CHR ''C'') (CHR ''A'') = CHR ''A''" "max (CHR ''C'') (CHR ''A'') = CHR ''C''"
    by (simp_all add: min_def max_def)
  from print_lookup_symmetric[of example_arm "CHR ''C''" "CHR ''A''"] h
  have r: "(\<exists>v. getitem (data example_arm) (CHR ''A'', CHR ''C'') = Inr v \<and>
          print_lookup example_arm (CHR ''C'') (CHR ''A'') = Inr v \<and>
          print_lookup example_arm (CHR ''A'') (CHR ''C'') = Inr v) \<and>
     (CHR ''C'' \<noteq> CHR ''A'' \<longrightarrow> getitem (data example_arm) (CHR ''C'', CHR ''A'') = Inl KeyError)"
    unfolding mm by (rule mp)
  have g: "getitem (data example_arm) (CHR ''A'', CHR ''C'') = Inr 20"
    by (simp add: example_arm_def example_dict_def getitem_def)
  from r g have "print_lookup example_arm (CHR ''C'') (CHR ''A'') = Inr 20 \<and>
      print_lookup example_arm (CHR ''A'') (CHR ''C'') = Inr 20 \<and>
      getitem (data example_arm) (CHR ''C'', CHR ''A'') = Inl KeyError"
    by auto
  with h g show ?thesis by simp
qed

section \<open>Constructing half matrices\<close>

lemma half_matrixI:
  assumes "distinct (letters m)" "ab_list m = sort (letters m)" "distinct (map fst (data m))"
    and "dom (map_of (data m)) = {(x, y). x \<in> set (letters m) \<and> y \<in> set (letters m) \<and> x \<le> y}"
  shows "half_matrix m"
proof -
  have k: "set (map fst (data m)) = {(x, y). x \<in> set (letters m) \<and> y \<in> set (letters m) \<and> x \<le> y}"
    using assms(4) by (simp add: dom_map_of_conv_image_fst)
  show ?thesis
    unfolding half_matrix_def k using assms(1-3) by auto
qed

lemma init_zero_rows_empty:
  assumes "distinct ls"
  shows "map_of (init_zero_rows (sort ls) (sort ls) []) =
     (\<lambda>(x, y). if x \<in> set ls \<and> y \<in> set ls \<and> x \<le> y then Some 0 else None)"
proof (rule ext)
  fix k :: key
  obtain x y where k: "k = (x, y)" by (cases k)
  have s: "sorted (sort ls)" "distinct (sort ls)" using assms by simp_all
  have up: "\<And>i. i \<in> set ls \<Longrightarrow> set (upto_letter (sort ls) i) = {j \<in> set ls. j \<le> i}"
    using upto_letter_sorted[OF s] by simp
  have "(\<exists>i\<in>set (sort ls). (x, y) \<in> (\<lambda>j. (j, i)) ` set (upto_letter (sort ls) i)) =
        (x \<in> set ls \<and> y \<in> set ls \<and> x \<le> y)"
    using up by auto
  then show "map_of (init_zero_rows (sort ls) (sort ls) []) k =
     (case k of (x, y) \<Rightarrow> if x \<in> set ls \<and> y \<in> set ls \<and> x \<le> y then Some 0 else None)"
    unfolding k init_zero_rows_map by simp
qed

lemma build_later_half:
  assumes "distinct ls"
  shows "\<exists>m. SeqMat [] (Some ls) t n True = Inr m \<and> half_matrix m \<and> letters m = ls \<and>
     ab_list m = sort ls \<and> mat_type m = t \<and> mat_name m = n \<and> sum_letters m = [] \<and>
     data m = init_zero_rows (sort ls) (sort ls) [] \<and>
     (\<forall>k\<in>set (map fst (data m)). map_of (data m) k = Some 0)"
proof -
  let ?d = "init_zero_rows (sort ls) (sort ls) []"
  let ?m = "\<lparr>data = ?d, letters = ls, ab_list = sort ls,
          mat_type = t, mat_name = n, sum_letters = []\<rparr>"
  have dk: "distinct (map fst ?d)" by (rule init_zero_rows_distinct) simp
  have dom: "dom (map_of ?d) = {(x, y). x \<in> set ls \<and> y \<in> set ls \<and> x \<le> y}"
    unfolding init_zero_rows_empty[OF assms] by (auto simp: dom_def split: if_splits)
  have hm: "half_matrix ?m"
    by (rule half_matrixI) (use assms dk dom in simp_all)
  have z: "\<forall>k\<in>set (map fst ?d). map_of ?d k = Some 0"
    unfolding keys_eq_dom init_zero_rows_empty[OF assms] by (auto simp: dom_def split: if_splits)
  show ?thesis
    using hm z by (intro exI[of _ ?m]) (simp add: SeqMat_build_later)
qed

lemma half_matrix_alphabet:
  assumes "half_matrix m"
  shows "alphabet_from_matrix (data m) = sort (letters m)"
proof -
  let ?xs = "concat (map (\<lambda>((a, b), v). [a, b]) (data m))"
  from assms have dl: "distinct (letters m)" by (simp add: half_matrix_def)
  have keys: "set (map fst (data m)) =
      {(x, y). x \<in> set (letters m) \<and> y \<in> set (letters m) \<and> x \<le> y}"
    using half_matrix_keys[OF assms] by (simp add: dom_map_of_conv_image_fst)
  have "set ?xs = (\<Union>k\<in>set (map fst (data m)). {fst k, snd k})"
    by (auto simp: split_def)
  also have "\<dots> = set (letters m)"
    unfolding keys by auto
  finally have sx: "set ?xs = set (letters m)" .
  have "sort (remdups ?xs) = sort (letters m)"
    by (rule sorted_distinct_set_unique) (use dl sx in simp_all)
  then show ?thesis by (simp add: alphabet_from_matrix_def)
qed

lemma copy_half_matrix:
  assumes "half_matrix m"
  shows "SeqMat (data m) None t n False =
     Inr \<lparr>data = data m, letters = sort (letters m), ab_list = sort (letters m),
          mat_type = t, mat_name = n, sum_letters = []\<rparr>"
proof -
  have len: "length (data m) = length (letters m) * (length (letters m) + 1) div 2"
    by (rule half_matrix_length[OF assms])
  show ?thesis
    using len
    by (simp add: SeqMat_def half_matrix_alphabet[OF assms] full_to_half_def Let_def
        sorted_sort_id)
qed

lemma half_matrix_sorted_letters:
  assumes "half_matrix m"
  shows "half_matrix (m\<lparr>letters := sort (letters m)\<rparr>)"
  using assms by (simp add: half_matrix_def sorted_sort_id)

lemma half_matrix_fields:
  "half_matrix m \<Longrightarrow> letters m' = letters m \<Longrightarrow> ab_list m' = ab_list m \<Longrightarrow>
   distinct (map fst (data m')) \<Longrightarrow> set (map fst (data m')) = set (map fst (data m)) \<Longrightarrow>
   half_matrix m'"
  by (simp add: half_matrix_def)

section \<open>The observed frequency stage\<close>

lemma value_at_own: "distinct (map fst d) \<Longrightarrow> (k, v) \<in> set d \<Longrightarrow> value_at d k = v"
  by (simp add: value_at_def)


lemma obs_freq_loop_ok:
  assumes "tot \<noteq> 0" "\<forall>k\<in>set ks. map_of arm k \<noteq> None"
  shows "\<exists>d'. obs_freq_loop arm tot ks d = Inr d' \<and>
     (distinct (map fst d) \<longrightarrow> distinct (map fst d')) \<and>
     map_of d' = (\<lambda>k. if k \<in> set ks then Some (value_at arm k / tot) else map_of d k)"
  using assms(2)
proof (induction ks arbitrary: d)
  case Nil
  then show ?case by simp
next
  case (Cons k ks)
  from Cons.prems obtain a where a: "map_of arm k = Some a" by auto
  then have va: "value_at arm k = a" by (simp add: value_at_def)
  from Cons.prems have rest: "\<forall>k\<in>set ks. map_of arm k \<noteq> None" by simp
  let ?d1 = "setitem d k (a / tot)"
  from Cons.IH[OF rest, of ?d1] obtain d' where d':
    "obs_freq_loop arm tot ks ?d1 = Inr d'"
    "distinct (map fst ?d1) \<longrightarrow> distinct (map fst d')"
    "map_of d' = (\<lambda>x. if x \<in> set ks then Some (value_at arm x / tot) else map_of ?d1 x)"
    by blast
  have step: "obs_freq_loop arm tot (k # ks) d = Inr d'"
    using a assms(1) d'(1) by (simp add: getitem_def py_div_def)
  have dist: "distinct (map fst d) \<longrightarrow> distinct (map fst d')"
    using d'(2) by (simp add: distinct_setitem)
  have m: "map_of d' = (\<lambda>x. if x \<in> set (k # ks) then Some (value_at arm x / tot) else map_of d x)"
    unfolding d'(3) by (auto simp: fun_eq_iff map_of_setitem va)
  from step dist m show ?case by blast
qed

lemma build_obs_freq_mat_ok:
  assumes "half_matrix acc" "sum_list (map snd (data acc)) \<noteq> 0"
  shows "\<exists>obs. build_obs_freq_mat acc = Inr obs \<and> letters obs = letters acc \<and>
     ab_list obs = ab_list acc \<and> mat_type obs = OBSFREQ \<and> distinct (map fst (data obs)) \<and>
     map_of (data obs) = (\<lambda>k. if k \<in> set (map fst (data acc))
        then Some (value_at (data acc) k / sum_list (map snd (data acc))) else None)"
proof -
  let ?tot = "sum_list (map snd (data acc))"
  from assms(1) have dl: "distinct (letters acc)" and ab: "ab_list acc = sort (letters acc)"
    by (simp_all add: half_matrix_def)
  from build_later_half[OF dl, of NOTYPE "[]"] obtain m0 where m0:
    "SeqMat [] (Some (letters acc)) NOTYPE [] True = Inr m0" "half_matrix m0"
    "letters m0 = letters acc" "ab_list m0 = sort (letters acc)" by blast
  have own: "\<forall>k\<in>set (map fst (data acc)). map_of (data acc) k \<noteq> None"
    by (simp add: map_of_eq_None_iff)
  from obs_freq_loop_ok[OF assms(2) own, of "data m0"] obtain d' where d':
    "obs_freq_loop (data acc) ?tot (map fst (data acc)) (data m0) = Inr d'"
    "distinct (map fst (data m0)) \<longrightarrow> distinct (map fst d')"
    "map_of d' = (\<lambda>k. if k \<in> set (map fst (data acc))
        then Some (value_at (data acc) k / ?tot) else map_of (data m0) k)"
    by blast
  have "dom (map_of (data m0)) = dom (map_of (data acc))"
    using half_matrix_keys[OF m0(2)] half_matrix_keys[OF assms(1)] m0(3) by simp
  then have "\<And>k. k \<notin> dom (map_of (data acc)) \<Longrightarrow> map_of (data m0) k = None"
    by (metis domIff)
  then have none: "\<And>k. k \<notin> set (map fst (data acc)) \<Longrightarrow> map_of (data m0) k = None"
    by (simp add: dom_map_of_conv_image_fst)
  have m: "map_of d' = (\<lambda>k. if k \<in> set (map fst (data acc))
        then Some (value_at (data acc) k / ?tot) else None)"
    unfolding d'(3) using none by (auto simp: fun_eq_iff)
  have dd: "distinct (map fst d')"
    using d'(2) m0(2) by (simp add: half_matrix_def)
  let ?obs = "m0\<lparr>data := d', mat_type := OBSFREQ\<rparr>"
  have "build_obs_freq_mat acc = Inr ?obs"
    using m0(1) d'(1) by (simp add: build_obs_freq_mat_def total_sum_list)
  then show ?thesis
    using m dd m0(3,4) ab by (intro exI[of _ ?obs]) simp
qed

lemma map_keys:
  assumes "map_of d' = (\<lambda>k. if k \<in> set (map fst d) then Some (g k) else None)"
  shows "set (map fst d') = set (map fst d)"
proof -
  have "dom (map_of d') = set (map fst d)"
    unfolding assms by (auto simp: dom_def split: if_splits)
  then show ?thesis by (simp add: dom_map_of_conv_image_fst)
qed



section \<open>The substitution stage\<close>

lemma subs_loop_ok:
  assumes "\<forall>k\<in>set ks. map_of obs k \<noteq> None \<and> map_of ex k \<noteq> None \<and> value_at ex k \<noteq> 0"
  shows "\<exists>d'. subs_loop obs ex ks d = Inr d' \<and>
     (distinct (map fst d) \<longrightarrow> distinct (map fst d')) \<and>
     map_of d' = (\<lambda>k. if k \<in> set ks then Some (value_at obs k / value_at ex k) else map_of d k)"
  using assms
proof (induction ks arbitrary: d)
  case Nil
  then show ?case by simp
next
  case (Cons k ks)
  from Cons.prems obtain x y where xy: "map_of obs k = Some x" "map_of ex k = Some y"
    by auto
  then have v: "value_at obs k = x" "value_at ex k = y" by (simp_all add: value_at_def)
  from Cons.prems v have ny: "y \<noteq> 0" by simp
  from Cons.prems have rest:
    "\<forall>k\<in>set ks. map_of obs k \<noteq> None \<and> map_of ex k \<noteq> None \<and> value_at ex k \<noteq> 0" by simp
  let ?d1 = "setitem d k (x / y)"
  from Cons.IH[OF rest, of ?d1] obtain d' where d':
    "subs_loop obs ex ks ?d1 = Inr d'"
    "distinct (map fst ?d1) \<longrightarrow> distinct (map fst d')"
    "map_of d' = (\<lambda>z. if z \<in> set ks then Some (value_at obs z / value_at ex z) else map_of ?d1 z)"
    by blast
  have step: "subs_loop obs ex (k # ks) d = Inr d'"
    using xy ny d'(1) by (simp add: getitem_def py_div_def)
  have dist: "distinct (map fst d) \<longrightarrow> distinct (map fst d')"
    using d'(2) by (simp add: distinct_setitem)
  have m: "map_of d' =
      (\<lambda>z. if z \<in> set (k # ks) then Some (value_at obs z / value_at ex z) else map_of d z)"
    unfolding d'(3) by (auto simp: fun_eq_iff map_of_setitem v)
  from step dist m show ?case by blast
qed

lemma own_keys_only: "k \<notin> set (map fst d) \<Longrightarrow> map_of d k = None"
  by (simp add: map_of_eq_None_iff)

lemma build_subs_mat_ok:
  assumes "half_matrix obs" "ab_list obs = ab_list ex"
    and "\<forall>k\<in>set (map fst (data obs)). map_of (data ex) k \<noteq> None \<and> value_at (data ex) k \<noteq> 0"
  shows "\<exists>s. build_subs_mat obs ex = Inr s \<and> letters s = sort (letters obs) \<and>
     ab_list s = ab_list obs \<and> mat_type s = SUBS \<and> distinct (map fst (data s)) \<and>
     map_of (data s) = (\<lambda>k. if k \<in> set (map fst (data obs))
        then Some (value_at (data obs) k / value_at (data ex) k) else None)"
proof -
  let ?K = "set (map fst (data obs))"
  from assms(1) have ab: "ab_list obs = sort (letters obs)" and dk: "distinct (map fst (data obs))"
    by (simp_all add: half_matrix_def)
  have pre: "\<forall>k\<in>?K. map_of (data obs) k \<noteq> None \<and> map_of (data ex) k \<noteq> None \<and>
      value_at (data ex) k \<noteq> 0"
    using assms(3) by (simp add: map_of_eq_None_iff)
  from subs_loop_ok[OF pre, of "data obs"] obtain d' where d':
    "subs_loop (data obs) (data ex) (map fst (data obs)) (data obs) = Inr d'"
    "distinct (map fst (data obs)) \<longrightarrow> distinct (map fst d')"
    "map_of d' = (\<lambda>k. if k \<in> ?K then Some (value_at (data obs) k / value_at (data ex) k)
        else map_of (data obs) k)"
    by blast
  have m: "map_of d' = (\<lambda>k. if k \<in> ?K then Some (value_at (data obs) k / value_at (data ex) k)
        else None)"
    unfolding d'(3) using own_keys_only[of _ "data obs"] by (auto simp: fun_eq_iff)
  let ?s0 = "\<lparr>data = data obs, letters = sort (letters obs), ab_list = sort (letters obs),
          mat_type = NOTYPE, mat_name = [], sum_letters = []\<rparr>"
  let ?s = "?s0\<lparr>data := d', mat_type := SUBS\<rparr>"
  have "build_subs_mat obs ex = Inr ?s"
    using assms(2) d'(1) by (simp add: build_subs_mat_def copy_half_matrix[OF assms(1)])
  then show ?thesis
    using m d'(2) dk ab by (intro exI[of _ ?s]) simp
qed

text \<open>
  Claim C7. \<open>_build_subs_mat\<close> raises \<open>ValueError\<close> whenever the sorted alphabet lists of
  its two arguments differ as lists. When they are equal, the observed frequency matrix is a
  half matrix, and the expected frequency matrix has a nonzero entry at each of its keys, it
  returns a matrix of type \<open>SUBS\<close> with the keys of the observed matrix whose value at every
  key is the observed value divided by the expected value.
\<close>

theorem build_subs_mat_divides:
  "(ab_list obs \<noteq> ab_list ex \<longrightarrow> build_subs_mat obs ex = Inl ValueError) \<and>
   (ab_list obs = ab_list ex \<and> half_matrix obs \<and>
    (\<forall>k\<in>set (map fst (data obs)). map_of (data ex) k \<noteq> None \<and> value_at (data ex) k \<noteq> 0) \<longrightarrow>
      (\<exists>s. build_subs_mat obs ex = Inr s \<and> mat_type s = SUBS \<and>
         set (map fst (data s)) = set (map fst (data obs)) \<and>
         (\<forall>k\<in>set (map fst (data obs)).
            getitem (data s) k = Inr (value_at (data obs) k / value_at (data ex) k))))"
proof (intro conjI impI)
  assume "ab_list obs \<noteq> ab_list ex"
  then show "build_subs_mat obs ex = Inl ValueError" by (simp add: build_subs_mat_def)
next
  assume h: "ab_list obs = ab_list ex \<and> half_matrix obs \<and>
    (\<forall>k\<in>set (map fst (data obs)). map_of (data ex) k \<noteq> None \<and> value_at (data ex) k \<noteq> 0)"
  then have h1: "half_matrix obs" and h2: "ab_list obs = ab_list ex"
    and h3: "\<forall>k\<in>set (map fst (data obs)). map_of (data ex) k \<noteq> None \<and> value_at (data ex) k \<noteq> 0"
    by simp_all
  from build_subs_mat_ok[OF h1 h2 h3] obtain s where s:
    "build_subs_mat obs ex = Inr s" "mat_type s = SUBS"
    "map_of (data s) = (\<lambda>k. if k \<in> set (map fst (data obs))
        then Some (value_at (data obs) k / value_at (data ex) k) else None)"
    by blast
  have keys: "set (map fst (data s)) = set (map fst (data obs))" by (rule map_keys[OF s(3)])
  have vals: "\<forall>k\<in>set (map fst (data obs)).
            getitem (data s) k = Inr (value_at (data obs) k / value_at (data ex) k)"
    by (simp add: getitem_def s(3))
  show "\<exists>s. build_subs_mat obs ex = Inr s \<and> mat_type s = SUBS \<and>
         set (map fst (data s)) = set (map fst (data obs)) \<and>
         (\<forall>k\<in>set (map fst (data obs)).
            getitem (data s) k = Inr (value_at (data obs) k / value_at (data ex) k))"
    using s(1,2) keys vals by (intro exI[of _ s]) simp
qed

lemma example_obs_half: "half_matrix example_obs"
  by (simp add: half_matrix_def example_obs_def example_freq_def)

theorem build_subs_mat_divides_witness:
  "ab_list example_obs = ''AC'' \<and> ab_list example_acg = ''ACG'' \<and>
   build_subs_mat example_obs example_acg = Inl ValueError \<and>
   ab_list example_obs = ab_list example_exp \<and> half_matrix example_obs \<and>
   build_subs_mat example_obs example_exp = Inr example_subs \<and>
   getitem (data example_subs) (CHR ''A'', CHR ''C'') = Inr ((1 / 2) / (1 / 2))"
proof -
  have ab: "ab_list example_obs = ''AC''" "ab_list example_acg = ''ACG''"
    by (simp_all add: example_obs_def example_acg_def)
  then have ne: "ab_list example_obs \<noteq> ab_list example_acg" by simp
  from build_subs_mat_divides[of example_obs example_acg, THEN conjunct1] ne
  have rej: "build_subs_mat example_obs example_acg = Inl ValueError" by (rule mp)
  have eq: "ab_list example_obs = ab_list example_exp"
    by (simp add: example_obs_def example_exp_def)
  have nz: "\<forall>k\<in>set (map fst (data example_obs)).
      map_of (data example_exp) k \<noteq> None \<and> value_at (data example_exp) k \<noteq> 0"
    by (simp add: example_obs_def example_exp_def example_freq_def value_at_def
        del: not_None_eq)
  from build_subs_mat_divides[of example_obs example_exp, THEN conjunct2]
    conjI[OF eq conjI[OF example_obs_half nz]]
  have "\<exists>s. build_subs_mat example_obs example_exp = Inr s \<and> mat_type s = SUBS \<and>
         set (map fst (data s)) = set (map fst (data example_obs)) \<and>
         (\<forall>k\<in>set (map fst (data example_obs)).
            getitem (data s) k =
              Inr (value_at (data example_obs) k / value_at (data example_exp) k))"
    by (rule mp)
  then obtain s where s: "build_subs_mat example_obs example_exp = Inr s"
    "\<forall>k\<in>set (map fst (data example_obs)).
        getitem (data s) k = Inr (value_at (data example_obs) k / value_at (data example_exp) k)"
    by blast
  from s(1) have se: "s = example_subs" by (simp add: example_subs_stage)
  have "(CHR ''A'', CHR ''C'') \<in> set (map fst (data example_obs))"
    by (simp add: example_obs_def example_freq_def)
  with s(2) have "getitem (data s) (CHR ''A'', CHR ''C'') =
      Inr (value_at (data example_obs) (CHR ''A'', CHR ''C'') /
           value_at (data example_exp) (CHR ''A'', CHR ''C''))"
    by (rule bspec)
  then have g: "getitem (data example_subs) (CHR ''A'', CHR ''C'') = Inr ((1 / 2) / (1 / 2))"
    unfolding se by (simp add: value_at_def example_obs_def example_exp_def example_freq_def)
  show ?thesis
    using ab rej eq example_obs_half s(1) g unfolding se by simp
qed

section \<open>The log-odds stage\<close>

lemma log_odds_loop_ok:
  assumes "0 < logbase" "logbase \<noteq> 1"
    and "\<forall>k\<in>set ks. map_of subs k \<noteq> None \<and> 0 < value_at subs k"
  shows "\<exists>d'. log_odds_loop subs logbase factor rd ks d = Inr d' \<and>
     (distinct (map fst d) \<longrightarrow> distinct (map fst d')) \<and>
     map_of d' = (\<lambda>k. if k \<in> set ks
        then Some (py_round (factor * ln (value_at subs k) / ln logbase) rd) else map_of d k)"
  using assms(3)
proof (induction ks arbitrary: d)
  case Nil
  then show ?case by simp
next
  case (Cons k ks)
  from Cons.prems obtain x where x: "map_of subs k = Some x" by auto
  then have v: "value_at subs k = x" by (simp add: value_at_def)
  from Cons.prems v have px: "\<not> x \<le> 0" by auto
  from assms(1) have pb: "\<not> logbase \<le> 0" by simp
  from assms(1,2) have nb: "ln logbase \<noteq> 0" by simp
  from Cons.prems have rest: "\<forall>k\<in>set ks. map_of subs k \<noteq> None \<and> 0 < value_at subs k"
    by simp
  let ?d1 = "setitem d k (py_round (factor * ln x / ln logbase) rd)"
  from Cons.IH[OF rest, of ?d1] obtain d' where d':
    "log_odds_loop subs logbase factor rd ks ?d1 = Inr d'"
    "distinct (map fst ?d1) \<longrightarrow> distinct (map fst d')"
    "map_of d' = (\<lambda>z. if z \<in> set ks
        then Some (py_round (factor * ln (value_at subs z) / ln logbase) rd) else map_of ?d1 z)"
    by blast
  have step: "log_odds_loop subs logbase factor rd (k # ks) d = Inr d'"
    using x px pb nb d'(1) by (simp add: getitem_def py_log_def py_div_def)
  have dist: "distinct (map fst d) \<longrightarrow> distinct (map fst d')"
    using d'(2) by (simp add: distinct_setitem)
  have m: "map_of d' = (\<lambda>z. if z \<in> set (k # ks)
        then Some (py_round (factor * ln (value_at subs z) / ln logbase) rd) else map_of d z)"
    unfolding d'(3) by (auto simp: fun_eq_iff map_of_setitem v)
  from step dist m show ?case by blast
qed

lemma build_log_odds_mat_ok:
  assumes "half_matrix subs" "0 < logbase" "logbase \<noteq> 1"
    and "\<forall>k\<in>set (map fst (data subs)). 0 < value_at (data subs) k"
  shows "\<exists>lo. build_log_odds_mat subs logbase factor rd = Inr lo \<and>
     letters lo = sort (letters subs) \<and> ab_list lo = ab_list subs \<and> mat_type lo = LO \<and>
     distinct (map fst (data lo)) \<and>
     map_of (data lo) = (\<lambda>k. if k \<in> set (map fst (data subs))
        then Some (py_round (factor * ln (value_at (data subs) k) / ln logbase) rd) else None)"
proof -
  let ?K = "set (map fst (data subs))"
  from assms(1) have ab: "ab_list subs = sort (letters subs)"
    and dk: "distinct (map fst (data subs))"
    by (simp_all add: half_matrix_def)
  have pre: "\<forall>k\<in>?K. map_of (data subs) k \<noteq> None \<and> 0 < value_at (data subs) k"
    using assms(4) by (simp add: map_of_eq_None_iff)
  from log_odds_loop_ok[OF assms(2,3) pre, of factor rd "data subs"] obtain d' where d':
    "log_odds_loop (data subs) logbase factor rd (map fst (data subs)) (data subs) = Inr d'"
    "distinct (map fst (data subs)) \<longrightarrow> distinct (map fst d')"
    "map_of d' = (\<lambda>k. if k \<in> ?K
        then Some (py_round (factor * ln (value_at (data subs) k) / ln logbase) rd)
        else map_of (data subs) k)"
    by blast
  have m: "map_of d' = (\<lambda>k. if k \<in> ?K
        then Some (py_round (factor * ln (value_at (data subs) k) / ln logbase) rd) else None)"
    unfolding d'(3) using own_keys_only[of _ "data subs"] by (auto simp: fun_eq_iff)
  let ?l0 = "\<lparr>data = data subs, letters = sort (letters subs), ab_list = sort (letters subs),
          mat_type = NOTYPE, mat_name = [], sum_letters = []\<rparr>"
  let ?lo = "?l0\<lparr>data := d', mat_type := LO\<rparr>"
  have "build_log_odds_mat subs logbase factor rd = Inr ?lo"
    using d'(1) by (simp add: build_log_odds_mat_def copy_half_matrix[OF assms(1)])
  then show ?thesis
    using m d'(2) dk ab by (intro exI[of _ ?lo]) simp
qed

lemma py_round_0: "py_round x 0 = sgn x * of_int \<lfloor>\<bar>x\<bar> + 1 / 2\<rfloor>"
  by (simp add: py_round_def)

lemma py_round_0_nearest: "\<exists>z::int. py_round x 0 = of_int z \<and> \<bar>of_int z - x\<bar> \<le> 1 / 2"
proof (cases "0 \<le> x")
  case True
  let ?z = "\<lfloor>x + 1 / 2\<rfloor>"
  have a: "of_int ?z \<le> x + 1 / 2" "x + 1 / 2 < of_int ?z + 1" by linarith+
  show ?thesis
  proof (cases "x = 0")
    case True
    then show ?thesis by (intro exI[of _ 0]) (simp add: py_round_0)
  next
    case False
    with \<open>0 \<le> x\<close> have "py_round x 0 = of_int ?z" by (simp add: py_round_0 sgn_if)
    moreover have "\<bar>of_int ?z - x\<bar> \<le> 1 / 2" using a by linarith
    ultimately show ?thesis by blast
  qed
next
  case False
  let ?z = "\<lfloor>1 / 2 - x\<rfloor>"
  have a: "of_int ?z \<le> 1 / 2 - x" "1 / 2 - x < of_int ?z + 1" by linarith+
  from False have "py_round x 0 = of_int (- ?z)" by (simp add: py_round_0 sgn_if)
  moreover have "\<bar>of_int (- ?z) - x\<bar> \<le> 1 / 2" unfolding of_int_minus using a by linarith
  ultimately show ?thesis by blast
qed

lemma py_round_quarter: "py_round (1 / 4) 1 = 3 / 10" "py_round (1 / 4) 0 = 0"
proof -
  have "\<lfloor>(3::real)\<rfloor> = 3" by simp
  then show "py_round (1 / 4) 1 = 3 / 10" by (simp add: py_round_def)
  show "py_round (1 / 4) 0 = 0" by (simp add: py_round_def)
qed

text \<open>
  Claim C6. For a substitution matrix that is a half matrix with positive entries, and a
  logarithm base that is positive and not \<open>1\<close>, \<open>_build_log_odds_mat\<close> returns a matrix of
  type \<open>LO\<close> with the same keys whose value at every key is
  \<open>round(factor * log(subs[key]) / log(logbase), round_digit)\<close>. The defaults are
  \<open>logbase=10\<close>, \<open>factor=10.0\<close> and \<open>round_digit=0\<close>; rounding to \<open>0\<close> digits gives a
  nearest integer, and \<open>round_digit\<close> is a number of decimal digits: \<open>0.25\<close> rounds to
  \<open>0.3\<close> with one digit and to \<open>0\<close> with none.
\<close>

theorem build_log_odds_mat_rounds:
  "(half_matrix subs \<and> 0 < logbase \<and> logbase \<noteq> 1 \<and>
    (\<forall>k\<in>set (map fst (data subs)). 0 < value_at (data subs) k) \<longrightarrow>
      (\<exists>lo. build_log_odds_mat subs logbase factor rd = Inr lo \<and> mat_type lo = LO \<and>
         set (map fst (data lo)) = set (map fst (data subs)) \<and>
         (\<forall>k\<in>set (map fst (data subs)).
            getitem (data lo) k =
              Inr (py_round (factor * ln (value_at (data subs) k) / ln logbase) rd)))) \<and>
   build_log_odds_mat_default subs = build_log_odds_mat subs 10 10 0 \<and>
   (\<exists>z::int. py_round x 0 = of_int z \<and> \<bar>of_int z - x\<bar> \<le> 1 / 2) \<and>
   py_round (1 / 4) 1 = 3 / 10 \<and> py_round (1 / 4) 0 = 0"
proof (intro conjI impI)
  assume h: "half_matrix subs \<and> 0 < logbase \<and> logbase \<noteq> 1 \<and>
    (\<forall>k\<in>set (map fst (data subs)). 0 < value_at (data subs) k)"
  then have h1: "half_matrix subs" and h2: "0 < logbase" and h3: "logbase \<noteq> 1"
    and h4: "\<forall>k\<in>set (map fst (data subs)). 0 < value_at (data subs) k"
    by simp_all
  from build_log_odds_mat_ok[OF h1 h2 h3 h4, of factor rd] obtain lo where lo:
    "build_log_odds_mat subs logbase factor rd = Inr lo" "mat_type lo = LO"
    "map_of (data lo) = (\<lambda>k. if k \<in> set (map fst (data subs))
        then Some (py_round (factor * ln (value_at (data subs) k) / ln logbase) rd) else None)"
    by blast
  have keys: "set (map fst (data lo)) = set (map fst (data subs))" by (rule map_keys[OF lo(3)])
  have vals: "\<forall>k\<in>set (map fst (data subs)).
      getitem (data lo) k = Inr (py_round (factor * ln (value_at (data subs) k) / ln logbase) rd)"
    by (simp add: getitem_def lo(3))
  show "\<exists>lo. build_log_odds_mat subs logbase factor rd = Inr lo \<and> mat_type lo = LO \<and>
         set (map fst (data lo)) = set (map fst (data subs)) \<and>
         (\<forall>k\<in>set (map fst (data subs)).
            getitem (data lo) k =
              Inr (py_round (factor * ln (value_at (data subs) k) / ln logbase) rd))"
    using lo(1,2) keys vals by (intro exI[of _ lo]) simp
next
  show "build_log_odds_mat_default subs = build_log_odds_mat subs 10 10 0"
    by (simp add: build_log_odds_mat_default_def)
next
  show "\<exists>z::int. py_round x 0 = of_int z \<and> \<bar>of_int z - x\<bar> \<le> 1 / 2"
    by (rule py_round_0_nearest)
next
  show "py_round (1 / 4) 1 = 3 / 10" by (rule py_round_quarter)
next
  show "py_round (1 / 4) 0 = 0" by (rule py_round_quarter)
qed

lemma example_subs_half: "half_matrix example_subs"
  by (simp add: half_matrix_def example_subs_def)

theorem build_log_odds_mat_rounds_witness:
  "half_matrix example_subs \<and> (0::real) < 10 \<and> (10::real) \<noteq> 1 \<and>
   build_log_odds_mat example_subs 10 10 0 = Inr example_lo \<and>
   getitem (data example_lo) (CHR ''A'', CHR ''C'') = Inr (py_round (10 * ln 1 / ln 10) 0) \<and>
   build_log_odds_mat_default example_subs = Inr example_lo"
proof -
  have pos: "\<forall>k\<in>set (map fst (data example_subs)). 0 < value_at (data example_subs) k"
    by (simp add: example_subs_def value_at_def)
  have b: "(0::real) < 10" "(10::real) \<noteq> 1" by simp_all
  note th = build_log_odds_mat_rounds[of example_subs 10 10 0 0]
  from th[THEN conjunct1] conjI[OF example_subs_half conjI[OF b(1) conjI[OF b(2) pos]]]
  have "\<exists>lo. build_log_odds_mat example_subs 10 10 0 = Inr lo \<and> mat_type lo = LO \<and>
         set (map fst (data lo)) = set (map fst (data example_subs)) \<and>
         (\<forall>k\<in>set (map fst (data example_subs)).
            getitem (data lo) k =
              Inr (py_round (10 * ln (value_at (data example_subs) k) / ln 10) 0))"
    by (rule mp)
  then obtain lo where lo: "build_log_odds_mat example_subs 10 10 0 = Inr lo"
    "\<forall>k\<in>set (map fst (data example_subs)).
        getitem (data lo) k = Inr (py_round (10 * ln (value_at (data example_subs) k) / ln 10) 0)"
    by blast
  from lo(1) have le: "lo = example_lo" by (simp add: example_lo_stage)
  have "(CHR ''A'', CHR ''C'') \<in> set (map fst (data example_subs))"
    by (simp add: example_subs_def)
  with lo(2) have "getitem (data lo) (CHR ''A'', CHR ''C'') =
      Inr (py_round (10 * ln (value_at (data example_subs) (CHR ''A'', CHR ''C'')) / ln 10) 0)"
    by (rule bspec)
  then have g: "getitem (data example_lo) (CHR ''A'', CHR ''C'') =
      Inr (py_round (10 * ln 1 / ln 10) 0)"
    unfolding le by (simp add: value_at_def example_subs_def)
  from th[THEN conjunct2, THEN conjunct1] lo(1)
  have d: "build_log_odds_mat_default example_subs = Inr example_lo"
    unfolding le by simp
  show ?thesis
    using example_subs_half lo(1) g d unfolding le by simp
qed

section \<open>The key invariant\<close>

lemma half_matrix_same_keys:
  assumes "half_matrix m" "set (letters m') = set (letters m)" "distinct (letters m')"
    "ab_list m' = sort (letters m')" "distinct (map fst (data m'))"
    "set (map fst (data m')) = set (map fst (data m))"
  shows "half_matrix m'"
  using assms unfolding half_matrix_def by simp

lemma exp_freq_loop_ok:
  assumes "\<forall>k\<in>set ks. map_of t (fst k) \<noteq> None \<and> map_of t (snd k) \<noteq> None"
  shows "\<exists>d'. exp_freq_loop t ks d = Inr d' \<and>
     (distinct (map fst d) \<longrightarrow> distinct (map fst d')) \<and>
     set (map fst d') = set ks \<union> set (map fst d)"
  using assms
proof (induction ks arbitrary: d)
  case Nil
  then show ?case by simp
next
  case (Cons k ks)
  from Cons.prems obtain p q where pq: "map_of t (fst k) = Some p" "map_of t (snd k) = Some q"
    by auto
  from Cons.prems have rest:
    "\<forall>k\<in>set ks. map_of t (fst k) \<noteq> None \<and> map_of t (snd k) \<noteq> None" by simp
  let ?v = "if fst k = snd k then p ^ 2 else 2 * p * q"
  let ?d1 = "setitem d k ?v"
  from Cons.IH[OF rest, of ?d1] obtain d' where d':
    "exp_freq_loop t ks ?d1 = Inr d'"
    "distinct (map fst ?d1) \<longrightarrow> distinct (map fst d')"
    "set (map fst d') = set ks \<union> set (map fst ?d1)" by blast
  have step: "exp_freq_loop t (k # ks) d = Inr d'"
    using pq d'(1) by (cases "fst k = snd k") (auto simp: getitem_def)
  have dist: "distinct (map fst d) \<longrightarrow> distinct (map fst d')"
    using d'(2) by (simp add: distinct_setitem)
  have "set (map fst ?d1) = insert k (set (map fst d))"
    by (simp add: setitem_def dom_update)
  then have keys: "set (map fst d') = set (k # ks) \<union> set (map fst d)"
    using d'(3) by auto
  from step dist keys show ?case by blast
qed

lemma build_exp_freq_mat_ok:
  assumes "distinct (ft_letters tab)" "\<forall>a\<in>set (ft_letters tab). map_of (ft_data tab) a \<noteq> None"
  shows "\<exists>e. build_exp_freq_mat tab = Inr e \<and> half_matrix e \<and> mat_type e = EXPFREQ \<and>
     letters e = ft_letters tab"
proof -
  from build_later_half[OF assms(1), of NOTYPE "[]"] obtain m0 where m0:
    "SeqMat [] (Some (ft_letters tab)) NOTYPE [] True = Inr m0" "half_matrix m0"
    "letters m0 = ft_letters tab" "ab_list m0 = sort (ft_letters tab)" by blast
  have "\<forall>k\<in>set (map fst (data m0)). fst k \<in> set (letters m0) \<and> snd k \<in> set (letters m0)"
    using m0(2) unfolding half_matrix_def by blast
  then have pre: "\<forall>k\<in>set (map fst (data m0)).
      map_of (ft_data tab) (fst k) \<noteq> None \<and> map_of (ft_data tab) (snd k) \<noteq> None"
    using assms(2) unfolding m0(3) by blast
  from exp_freq_loop_ok[OF pre, of "data m0"] obtain d' where d':
    "exp_freq_loop (ft_data tab) (map fst (data m0)) (data m0) = Inr d'"
    "distinct (map fst (data m0)) \<longrightarrow> distinct (map fst d')"
    "set (map fst d') = set (map fst (data m0)) \<union> set (map fst (data m0))" by blast
  let ?e = "m0\<lparr>data := d', mat_type := EXPFREQ\<rparr>"
  have dd: "distinct (map fst d')" using d'(2) m0(2) by (simp add: half_matrix_def)
  have hm: "half_matrix ?e"
    by (rule half_matrix_same_keys[OF m0(2)]) (use dd d'(3) m0 assms(1) in simp_all)
  have "build_exp_freq_mat tab = Inr ?e"
    using m0(1) d'(1) by (simp add: build_exp_freq_mat_def)
  then show ?thesis using hm m0(3) by (intro exI[of _ ?e]) simp
qed

lemma build_obs_freq_mat_half:
  assumes "half_matrix acc" "sum_list (map snd (data acc)) \<noteq> 0"
  shows "\<exists>obs. build_obs_freq_mat acc = Inr obs \<and> half_matrix obs"
proof -
  from build_obs_freq_mat_ok[OF assms] obtain obs where obs:
    "build_obs_freq_mat acc = Inr obs" "letters obs = letters acc" "ab_list obs = ab_list acc"
    "distinct (map fst (data obs))"
    "map_of (data obs) = (\<lambda>k. if k \<in> set (map fst (data acc))
        then Some (value_at (data acc) k / sum_list (map snd (data acc))) else None)"
    by blast
  have "half_matrix obs"
    by (rule half_matrix_fields[OF assms(1) obs(2,3,4) map_keys[OF obs(5)]])
  with obs(1) show ?thesis by blast
qed

lemma build_subs_mat_half:
  assumes "half_matrix obs" "ab_list obs = ab_list ex"
    and "\<forall>k\<in>set (map fst (data obs)). map_of (data ex) k \<noteq> None \<and> value_at (data ex) k \<noteq> 0"
  shows "\<exists>s. build_subs_mat obs ex = Inr s \<and> half_matrix s"
proof -
  from build_subs_mat_ok[OF assms] obtain s where s:
    "build_subs_mat obs ex = Inr s" "letters s = sort (letters obs)" "ab_list s = ab_list obs"
    "distinct (map fst (data s))"
    "map_of (data s) = (\<lambda>k. if k \<in> set (map fst (data obs))
        then Some (value_at (data obs) k / value_at (data ex) k) else None)"
    by blast
  from assms(1) have "distinct (letters obs)" "ab_list obs = sort (letters obs)"
    by (simp_all add: half_matrix_def)
  then have "half_matrix s"
    by (intro half_matrix_same_keys[OF assms(1) _ _ _ s(4) map_keys[OF s(5)]])
      (simp_all add: s(2,3) sorted_sort_id)
  with s(1) show ?thesis by blast
qed

lemma build_log_odds_mat_half:
  assumes "half_matrix subs" "0 < logbase" "logbase \<noteq> 1"
    and "\<forall>k\<in>set (map fst (data subs)). 0 < value_at (data subs) k"
  shows "\<exists>lo. build_log_odds_mat subs logbase factor rd = Inr lo \<and> half_matrix lo"
proof -
  from build_log_odds_mat_ok[OF assms, of factor rd] obtain lo where lo:
    "build_log_odds_mat subs logbase factor rd = Inr lo" "letters lo = sort (letters subs)"
    "ab_list lo = ab_list subs" "distinct (map fst (data lo))"
    "map_of (data lo) = (\<lambda>k. if k \<in> set (map fst (data subs))
        then Some (py_round (factor * ln (value_at (data subs) k) / ln logbase) rd) else None)"
    by blast
  from assms(1) have "distinct (letters subs)" "ab_list subs = sort (letters subs)"
    by (simp_all add: half_matrix_def)
  then have "half_matrix lo"
    by (intro half_matrix_same_keys[OF assms(1) _ _ _ lo(4) map_keys[OF lo(5)]])
      (simp_all add: lo(2,3) sorted_sort_id)
  with lo(1) show ?thesis by blast
qed

lemma full_to_half_half:
  assumes "full_matrix m"
  shows "\<exists>h. full_to_half m = Inr h \<and> half_matrix h"
proof -
  from full_matrix_folded[OF assms] obtain d' where d':
    "full_to_half m = Inr (m\<lparr>data := d'\<rparr>)" "distinct (map fst d')"
    "map_of d' = fold_spec (set (letters m)) (map_of (data m))" by blast
  from assms have f: "distinct (letters m)" "ab_list m = sort (letters m)"
    "dom (map_of (data m)) = set (letters m) \<times> set (letters m)"
    by (simp_all add: full_matrix_def dom_map_of_conv_image_fst)
  have "half_matrix (m\<lparr>data := d'\<rparr>)"
    by (rule half_matrixI) (use f d'(2) in \<open>simp_all add: d'(3) dom_fold_spec_full[OF f(3)]\<close>)
  with d'(1) show ?thesis by blast
qed

text \<open>
  Claim C9 as stated, that every matrix coming out of folding or of a pipeline stage has
  its keys in the order \<open>(low, high)\<close> and \<open>N*(N+1)/2\<close> of them, fails on a dictionary of half
  size with the key \<open>(C, A)\<close>: the constructor accepts it, \<open>_full_to_half\<close> returns it
  unchanged, so the key \<open>(C, A)\<close> with \<open>C\<close> after \<open>A\<close> stays; and the observed frequency
  stage run on this matrix returns a matrix of four entries over a two-letter alphabet.
\<close>

theorem unsorted_half_matrix_kept:
  "SeqMat unsorted_dict None NOTYPE [] False = Inr unsorted_mat \<and>
   full_to_half unsorted_mat = Inr unsorted_mat \<and>
   (CHR ''C'', CHR ''A'') \<in> set (map fst (data unsorted_mat)) \<and>
   \<not> CHR ''C'' \<le> CHR ''A'' \<and>
   \<not> half_matrix unsorted_mat \<and>
   build_obs_freq_mat unsorted_mat =
     Inr \<lparr>data = [((CHR ''A'', CHR ''A''), 1 / 3), ((CHR ''A'', CHR ''C''), 0),
                 ((CHR ''C'', CHR ''C''), 1 / 2), ((CHR ''C'', CHR ''A''), 1 / 6)],
          letters = ''AC'', ab_list = ''AC'', mat_type = OBSFREQ, mat_name = [],
          sum_letters = []\<rparr>"
proof (intro conjI)
  show "SeqMat unsorted_dict None NOTYPE [] False = Inr unsorted_mat"
    by (simp add: SeqMat_def alphabet_from_matrix_def full_to_half_def Let_def
        unsorted_mat_def unsorted_dict_def)
  show "full_to_half unsorted_mat = Inr unsorted_mat"
    by (simp add: full_to_half_def unsorted_mat_def unsorted_dict_def)
  show "(CHR ''C'', CHR ''A'') \<in> set (map fst (data unsorted_mat))"
    by (simp add: unsorted_mat_def unsorted_dict_def)
  show "\<not> CHR ''C'' \<le> CHR ''A''" by simp
  show "\<not> half_matrix unsorted_mat"
    by (simp add: half_matrix_def unsorted_mat_def unsorted_dict_def)
  show "build_obs_freq_mat unsorted_mat =
     Inr \<lparr>data = [((CHR ''A'', CHR ''A''), 1 / 3), ((CHR ''A'', CHR ''C''), 0),
                 ((CHR ''C'', CHR ''C''), 1 / 2), ((CHR ''C'', CHR ''A''), 1 / 6)],
          letters = ''AC'', ab_list = ''AC'', mat_type = OBSFREQ, mat_name = [],
          sum_letters = []\<rparr>"
    by (simp add: Let_def build_obs_freq_mat_def SeqMat_def init_zero_def upto_letter_def
        setitem_def getitem_def py_div_def unsorted_mat_def unsorted_dict_def)
qed

text \<open>
  Claim C9, as the source has it. Over a duplicate-free alphabet of \<open>N\<close> letters: a matrix
  constructed with \<open>build_later\<close> from no data, and the result of folding a full matrix, are
  half matrices, that is, every key \<open>(x, y)\<close> has \<open>x\<close> before or equal to \<open>y\<close> in sorted
  order and every unordered pair over the alphabet has exactly one key; a half matrix has
  \<open>N*(N+1)/2\<close> entries. Each pipeline stage returns a half matrix when its input is one
  (for the expected frequency matrix: when the table has an entry for each of its letters).
  A matrix that already has \<open>N*(N+1)/2\<close> entries is left as it is by folding, whatever the
  order inside its keys.
\<close>

theorem half_matrix_established:
  "(distinct ls \<longrightarrow>
      (\<exists>m. SeqMat [] (Some ls) t n True = Inr m \<and> half_matrix m \<and> letters m = ls)) \<and>
   (full_matrix fm \<longrightarrow>
      (\<exists>h. full_to_half fm = Inr h \<and> half_matrix h \<and> letters h = letters fm)) \<and>
   (half_matrix m \<longrightarrow>
      length (data m) = length (letters m) * (length (letters m) + 1) div 2 \<and>
      full_to_half m = Inr m) \<and>
   (half_matrix acc \<and> sum_list (map snd (data acc)) \<noteq> 0 \<longrightarrow>
      (\<exists>obs. build_obs_freq_mat acc = Inr obs \<and> half_matrix obs)) \<and>
   (distinct (ft_letters tab) \<and> (\<forall>a\<in>set (ft_letters tab). map_of (ft_data tab) a \<noteq> None) \<longrightarrow>
      (\<exists>e. build_exp_freq_mat tab = Inr e \<and> half_matrix e)) \<and>
   (half_matrix obs \<and> ab_list obs = ab_list ex \<and>
    (\<forall>k\<in>set (map fst (data obs)). map_of (data ex) k \<noteq> None \<and> value_at (data ex) k \<noteq> 0) \<longrightarrow>
      (\<exists>s. build_subs_mat obs ex = Inr s \<and> half_matrix s)) \<and>
   (half_matrix subs \<and> 0 < logbase \<and> logbase \<noteq> 1 \<and>
    (\<forall>k\<in>set (map fst (data subs)). 0 < value_at (data subs) k) \<longrightarrow>
      (\<exists>lo. build_log_odds_mat subs logbase factor rd = Inr lo \<and> half_matrix lo))"
proof (intro conjI impI)
  assume "distinct ls"
  from build_later_half[OF this, of t n]
  show "\<exists>m. SeqMat [] (Some ls) t n True = Inr m \<and> half_matrix m \<and> letters m = ls"
    by blast
next
  assume fm: "full_matrix fm"
  from full_matrix_folded[OF fm] obtain d' where d': "full_to_half fm = Inr (fm\<lparr>data := d'\<rparr>)"
    by blast
  from full_to_half_half[OF fm] obtain h where h: "full_to_half fm = Inr h" "half_matrix h"
    by blast
  from d' h(1) have "letters h = letters fm" by auto
  with h show "\<exists>h. full_to_half fm = Inr h \<and> half_matrix h \<and> letters h = letters fm"
    by blast
next
  assume "half_matrix m"
  then show "length (data m) = length (letters m) * (length (letters m) + 1) div 2"
    by (rule half_matrix_length)
next
  assume "half_matrix m"
  then have "length (data m) = length (letters m) * (length (letters m) + 1) div 2"
    by (rule half_matrix_length)
  then show "full_to_half m = Inr m" by (rule full_to_half_half_sized)
next
  assume "half_matrix acc \<and> sum_list (map snd (data acc)) \<noteq> 0"
  then show "\<exists>obs. build_obs_freq_mat acc = Inr obs \<and> half_matrix obs"
    using build_obs_freq_mat_half by blast
next
  assume a: "distinct (ft_letters tab) \<and>
      (\<forall>a\<in>set (ft_letters tab). map_of (ft_data tab) a \<noteq> None)"
  from build_exp_freq_mat_ok[OF conjunct1[OF a] conjunct2[OF a]]
  show "\<exists>e. build_exp_freq_mat tab = Inr e \<and> half_matrix e" by blast
next
  assume a: "half_matrix obs \<and> ab_list obs = ab_list ex \<and>
    (\<forall>k\<in>set (map fst (data obs)). map_of (data ex) k \<noteq> None \<and> value_at (data ex) k \<noteq> 0)"
  from build_subs_mat_half[OF conjunct1[OF a] conjunct1[OF conjunct2[OF a]]
      conjunct2[OF conjunct2[OF a]]]
  show "\<exists>s. build_subs_mat obs ex = Inr s \<and> half_matrix s" .
next
  assume a: "half_matrix subs \<and> 0 < logbase \<and> logbase \<noteq> 1 \<and>
    (\<forall>k\<in>set (map fst (data subs)). 0 < value_at (data subs) k)"
  then have a1: "half_matrix subs" and a2: "0 < logbase" and a3: "logbase \<noteq> 1"
    and a4: "\<forall>k\<in>set (map fst (data subs)). 0 < value_at (data subs) k" by simp_all
  from build_log_odds_mat_half[OF a1 a2 a3 a4]
  show "\<exists>lo. build_log_odds_mat subs logbase factor rd = Inr lo \<and> half_matrix lo" .
qed

theorem half_matrix_established_witness:
  "distinct ''AC'' \<and>
   (\<exists>m. SeqMat [] (Some ''AC'') NOTYPE [] True = Inr m \<and> half_matrix m \<and> letters m = ''AC'') \<and>
   full_matrix example_full \<and>
   (\<exists>h. full_to_half example_full = Inr h \<and> half_matrix h \<and> letters h = letters example_full) \<and>
   half_matrix example_arm \<and> length (data example_arm) = 3 \<and>
   full_to_half example_arm = Inr example_arm \<and>
   (\<exists>obs. build_obs_freq_mat example_arm = Inr obs \<and> half_matrix obs) \<and>
   (\<exists>e. build_exp_freq_mat example_table = Inr e \<and> half_matrix e) \<and>
   (\<exists>s. build_subs_mat example_obs example_exp = Inr s \<and> half_matrix s) \<and>
   (\<exists>lo. build_log_odds_mat example_subs 10 10 0 = Inr lo \<and> half_matrix lo)"
proof -
  note th = half_matrix_established[where ls = "''AC''" and t = NOTYPE and n = "[]"
      and fm = example_full and m = example_arm and acc = example_arm and tab = example_table
      and obs = example_obs and ex = example_exp and subs = example_subs and logbase = 10
      and factor = 10 and rd = 0]
  have d: "distinct ''AC''" by simp
  have 1: "\<exists>m. SeqMat [] (Some ''AC'') NOTYPE [] True = Inr m \<and> half_matrix m \<and>
      letters m = ''AC''"
    using th[THEN conjunct1] d by (rule mp)
  have 2: "\<exists>h. full_to_half example_full = Inr h \<and> half_matrix h \<and>
      letters h = letters example_full"
    using th[THEN conjunct2, THEN conjunct1] example_full_is_full by (rule mp)
  have "length (data example_arm) =
      length (letters example_arm) * (length (letters example_arm) + 1) div 2 \<and>
      full_to_half example_arm = Inr example_arm"
    using th[THEN conjunct2, THEN conjunct2, THEN conjunct1] example_arm_half by (rule mp)
  then have 3: "length (data example_arm) = 3" "full_to_half example_arm = Inr example_arm"
    by (simp_all add: example_arm_def)
  have s: "half_matrix example_arm \<and> sum_list (map snd (data example_arm)) \<noteq> 0"
    using example_arm_half by (simp add: example_arm_def example_dict_def)
  have 4: "\<exists>obs. build_obs_freq_mat example_arm = Inr obs \<and> half_matrix obs"
    using th[THEN conjunct2, THEN conjunct2, THEN conjunct2, THEN conjunct1] s by (rule mp)
  have tb: "distinct (ft_letters example_table) \<and>
      (\<forall>a\<in>set (ft_letters example_table). map_of (ft_data example_table) a \<noteq> None)"
    by (simp add: example_table_def del: not_None_eq)
  have 5: "\<exists>e. build_exp_freq_mat example_table = Inr e \<and> half_matrix e"
    using th[THEN conjunct2, THEN conjunct2, THEN conjunct2, THEN conjunct2, THEN conjunct1] tb
    by (rule mp)
  have sb: "half_matrix example_obs \<and> ab_list example_obs = ab_list example_exp \<and>
      (\<forall>k\<in>set (map fst (data example_obs)).
         map_of (data example_exp) k \<noteq> None \<and> value_at (data example_exp) k \<noteq> 0)"
    using example_obs_half
    by (simp add: example_obs_def example_exp_def example_freq_def value_at_def
        del: not_None_eq)
  have 6: "\<exists>s. build_subs_mat example_obs example_exp = Inr s \<and> half_matrix s"
    using th[THEN conjunct2, THEN conjunct2, THEN conjunct2, THEN conjunct2, THEN conjunct2,
        THEN conjunct1] sb
    by (rule mp)
  have lb: "half_matrix example_subs \<and> (0::real) < 10 \<and> (10::real) \<noteq> 1 \<and>
      (\<forall>k\<in>set (map fst (data example_subs)). 0 < value_at (data example_subs) k)"
    using example_subs_half by (simp add: example_subs_def value_at_def)
  have 7: "\<exists>lo. build_log_odds_mat example_subs 10 10 0 = Inr lo \<and> half_matrix lo"
    using th[THEN conjunct2, THEN conjunct2, THEN conjunct2, THEN conjunct2, THEN conjunct2,
        THEN conjunct2] lb
    by (rule mp)
  show ?thesis
    by (intro conjI) (rule d 1 example_full_is_full 2 example_arm_half 3 4 5 6 7)+
qed

section \<open>An expected frequency table that is false as a condition\<close>

lemma make_log_odds_matrix_derives:
  assumes "exp_freq_table = None \<or> (\<exists>t. exp_freq_table = Some t \<and> \<not> ft_truth t)"
  shows "make_log_odds_matrix acc_rep_mat exp_freq_table logbase factor rd =
     (case build_obs_freq_mat acc_rep_mat of Inl e \<Rightarrow> Inl e | Inr obs_freq_mat \<Rightarrow>
      (case exp_freq_table_from_obs_freq obs_freq_mat of Inl e \<Rightarrow> Inl e | Inr table \<Rightarrow>
       (case build_exp_freq_mat table of Inl e \<Rightarrow> Inl e | Inr exp_freq_mat \<Rightarrow>
        (case build_subs_mat obs_freq_mat exp_freq_mat of Inl e \<Rightarrow> Inl e | Inr subs_mat \<Rightarrow>
           build_log_odds_mat subs_mat logbase factor rd))))"
proof (cases "build_obs_freq_mat acc_rep_mat")
  case (Inl e)
  then show ?thesis by (simp add: make_log_odds_matrix_def)
next
  case (Inr obs)
  from assms show ?thesis
  proof
    assume "exp_freq_table = None"
    then show ?thesis using Inr by (simp add: make_log_odds_matrix_def)
  next
    assume "\<exists>t. exp_freq_table = Some t \<and> \<not> ft_truth t"
    then obtain t where "exp_freq_table = Some t" "\<not> ft_truth t" by blast
    then show ?thesis using Inr by (simp add: make_log_odds_matrix_def)
  qed
qed

lemma make_log_odds_matrix_uses:
  assumes "ft_truth t"
  shows "make_log_odds_matrix acc_rep_mat (Some t) logbase factor rd =
     (case build_obs_freq_mat acc_rep_mat of Inl e \<Rightarrow> Inl e | Inr obs_freq_mat \<Rightarrow>
      (case build_exp_freq_mat t of Inl e \<Rightarrow> Inl e | Inr exp_freq_mat \<Rightarrow>
       (case build_subs_mat obs_freq_mat exp_freq_mat of Inl e \<Rightarrow> Inl e | Inr subs_mat \<Rightarrow>
          build_log_odds_mat subs_mat logbase factor rd)))"
  using assms
  by (cases "build_obs_freq_mat acc_rep_mat") (simp_all add: make_log_odds_matrix_def)

text \<open>
  Claim C10. When the expected frequency table is omitted, and equally when one is supplied
  that is false as a condition, \<open>make_log_odds_matrix\<close> is the pipeline run on the table
  that \<open>_exp_freq_table_from_obs_freq\<close> derives from the observed frequency matrix: the
  supplied argument is not used. A table without entries is false as a condition, whatever
  alphabet it carries, so the call with it gives the result of the call without a table. A
  table that is true as a condition is used as supplied, and nothing is derived.
\<close>

theorem make_log_odds_matrix_empty_table:
  "(exp_freq_table = None \<or> (\<exists>t. exp_freq_table = Some t \<and> \<not> ft_truth t) \<longrightarrow>
      make_log_odds_matrix acc_rep_mat exp_freq_table logbase factor rd =
        (case build_obs_freq_mat acc_rep_mat of Inl e \<Rightarrow> Inl e | Inr obs_freq_mat \<Rightarrow>
         (case exp_freq_table_from_obs_freq obs_freq_mat of Inl e \<Rightarrow> Inl e | Inr table \<Rightarrow>
          (case build_exp_freq_mat table of Inl e \<Rightarrow> Inl e | Inr exp_freq_mat \<Rightarrow>
           (case build_subs_mat obs_freq_mat exp_freq_mat of Inl e \<Rightarrow> Inl e | Inr subs_mat \<Rightarrow>
              build_log_odds_mat subs_mat logbase factor rd))))) \<and>
   \<not> ft_truth \<lparr>ft_data = [], ft_letters = ls\<rparr> \<and>
   make_log_odds_matrix acc_rep_mat (Some \<lparr>ft_data = [], ft_letters = ls\<rparr>) logbase factor rd =
     make_log_odds_matrix acc_rep_mat None logbase factor rd \<and>
   (ft_truth t \<longrightarrow>
      make_log_odds_matrix acc_rep_mat (Some t) logbase factor rd =
        (case build_obs_freq_mat acc_rep_mat of Inl e \<Rightarrow> Inl e | Inr obs_freq_mat \<Rightarrow>
         (case build_exp_freq_mat t of Inl e \<Rightarrow> Inl e | Inr exp_freq_mat \<Rightarrow>
          (case build_subs_mat obs_freq_mat exp_freq_mat of Inl e \<Rightarrow> Inl e | Inr subs_mat \<Rightarrow>
             build_log_odds_mat subs_mat logbase factor rd))))"
proof (intro conjI impI)
  assume "exp_freq_table = None \<or> (\<exists>t. exp_freq_table = Some t \<and> \<not> ft_truth t)"
  then show "make_log_odds_matrix acc_rep_mat exp_freq_table logbase factor rd =
        (case build_obs_freq_mat acc_rep_mat of Inl e \<Rightarrow> Inl e | Inr obs_freq_mat \<Rightarrow>
         (case exp_freq_table_from_obs_freq obs_freq_mat of Inl e \<Rightarrow> Inl e | Inr table \<Rightarrow>
          (case build_exp_freq_mat table of Inl e \<Rightarrow> Inl e | Inr exp_freq_mat \<Rightarrow>
           (case build_subs_mat obs_freq_mat exp_freq_mat of Inl e \<Rightarrow> Inl e | Inr subs_mat \<Rightarrow>
              build_log_odds_mat subs_mat logbase factor rd))))"
    by (rule make_log_odds_matrix_derives)
next
  show nt: "\<not> ft_truth \<lparr>ft_data = [], ft_letters = ls\<rparr>" by (simp add: ft_truth_def)
  have a: "Some \<lparr>ft_data = [], ft_letters = ls\<rparr> = None \<or>
      (\<exists>t. Some \<lparr>ft_data = [], ft_letters = ls\<rparr> = Some t \<and> \<not> ft_truth t)"
    using nt by simp
  have b: "(None :: freq_table option) = None \<or> (\<exists>t. None = Some t \<and> \<not> ft_truth t)" by simp
  show "make_log_odds_matrix acc_rep_mat (Some \<lparr>ft_data = [], ft_letters = ls\<rparr>) logbase factor rd =
     make_log_odds_matrix acc_rep_mat None logbase factor rd"
    unfolding make_log_odds_matrix_derives[OF a] make_log_odds_matrix_derives[OF b] ..
next
  assume "ft_truth t"
  then show "make_log_odds_matrix acc_rep_mat (Some t) logbase factor rd =
        (case build_obs_freq_mat acc_rep_mat of Inl e \<Rightarrow> Inl e | Inr obs_freq_mat \<Rightarrow>
         (case build_exp_freq_mat t of Inl e \<Rightarrow> Inl e | Inr exp_freq_mat \<Rightarrow>
          (case build_subs_mat obs_freq_mat exp_freq_mat of Inl e \<Rightarrow> Inl e | Inr subs_mat \<Rightarrow>
             build_log_odds_mat subs_mat logbase factor rd)))"
    by (rule make_log_odds_matrix_uses)
qed

lemma acg_table_stage:
  "\<exists>e. build_exp_freq_mat acg_table = Inr e \<and> ab_list e = ''ACG''"
  by (simp add: Let_def build_exp_freq_mat_def SeqMat_def init_zero_def upto_letter_def
      setitem_def getitem_def acg_table_def)

theorem make_log_odds_matrix_empty_table_witness:
  "\<not> ft_truth empty_acg_table \<and>
   exp_freq_table_from_obs_freq example_obs = Inr example_table \<and>
   make_log_odds_matrix example_arm (Some empty_acg_table) 10 10 0 = Inr example_lo \<and>
   make_log_odds_matrix example_arm None 10 10 0 = Inr example_lo \<and>
   ft_truth acg_table \<and>
   make_log_odds_matrix example_arm (Some acg_table) 10 10 0 = Inl ValueError"
proof -
  have nt: "\<not> ft_truth empty_acg_table" by (simp add: ft_truth_def empty_acg_table_def)
  have tt: "ft_truth acg_table" by (simp add: ft_truth_def acg_table_def)
  have a: "Some empty_acg_table = None \<or>
      (\<exists>t. Some empty_acg_table = Some t \<and> \<not> ft_truth t)"
    using nt by simp
  have b: "(None :: freq_table option) = None \<or> (\<exists>t. None = Some t \<and> \<not> ft_truth t)" by simp
  note th1 = make_log_odds_matrix_empty_table[where exp_freq_table = "Some empty_acg_table"
      and acc_rep_mat = example_arm and logbase = 10 and factor = 10 and rd = 0
      and t = acg_table, THEN conjunct1]
  note th2 = make_log_odds_matrix_empty_table[where exp_freq_table = None
      and acc_rep_mat = example_arm and logbase = 10 and factor = 10 and rd = 0
      and t = acg_table, THEN conjunct1]
  note th4 = make_log_odds_matrix_empty_table[where exp_freq_table = None
      and acc_rep_mat = example_arm and logbase = 10 and factor = 10 and rd = 0
      and t = acg_table, THEN conjunct2, THEN conjunct2, THEN conjunct2]
  have 1: "make_log_odds_matrix example_arm (Some empty_acg_table) 10 10 0 = Inr example_lo"
    unfolding mp[OF th1 a]
    by (simp add: example_obs_stage example_table_stage example_exp_stage example_subs_stage
        example_lo_stage)
  have 2: "make_log_odds_matrix example_arm None 10 10 0 = Inr example_lo"
    unfolding mp[OF th2 b]
    by (simp add: example_obs_stage example_table_stage example_exp_stage example_subs_stage
        example_lo_stage)
  from acg_table_stage obtain e where e: "build_exp_freq_mat acg_table = Inr e"
    "ab_list e = ''ACG''" by blast
  have "build_subs_mat example_obs e = Inl ValueError"
    by (simp add: build_subs_mat_def e(2) example_obs_def)
  then have 3: "make_log_odds_matrix example_arm (Some acg_table) 10 10 0 = Inl ValueError"
    unfolding mp[OF th4 tt] by (simp add: example_obs_stage e(1))
  show ?thesis
    by (intro conjI) (rule nt example_table_stage 1 2 tt 3)+
qed

end
